theory Spec2Isabelle
  imports Main "HOL-Library.Word" "HOL-Library.Signed_Division"
begin

unbundle bit_operations_syntax

section \<open>Machine types, C strings and the line buffer\<close>

text \<open>
  The monitor of \<^verbatim>\<open>kern/monitor.c\<close> runs on a 32-bit x86 kernel. A \<^verbatim>\<open>uint32_t\<close>, a
  \<^verbatim>\<open>pte_t\<close> and a pointer are 32-bit words; a \<^verbatim>\<open>char\<close> is an 8-bit word, which the
  target's compiler reads as a signed value (\<open>sint\<close>, \<open>\<le>s\<close>, \<open>scast\<close>).

  The command line lives in one character array. A \<^verbatim>\<open>char *\<close> into it is an index;
  the array holds the characters of the list and NUL bytes from there on, so a read
  past the end of the list gives 0. Every write of the code goes to a cell it has just
  read as non-zero, which lies inside the list.
\<close>

type_synonym u32 = "32 word"
type_synonym cchar = "8 word"
type_synonym cbuf = "cchar list"

abbreviation ch :: "char \<Rightarrow> cchar" where
  "ch c \<equiv> of_char c"

text \<open>The bytes of a string literal of the source.\<close>

definition lit :: "string \<Rightarrow> cbuf" where
  "lit s = map of_char s"

text \<open>\<^verbatim>\<open>*p\<close> for a pointer \<open>p\<close> into the array \<open>b\<close>.\<close>

definition peek :: "cbuf \<Rightarrow> nat \<Rightarrow> cchar" where
  "peek b i = (if i < length b then b ! i else 0)"

text \<open>The C string that starts at the head of \<open>s\<close>: the bytes before the first NUL.\<close>

definition cstring :: "cbuf \<Rightarrow> cbuf" where
  "cstring s = takeWhile (\<lambda>c. c \<noteq> 0) s"

text \<open>The C string a pointer \<open>p\<close> into the array \<open>b\<close> denotes.\<close>

definition cstr :: "cbuf \<Rightarrow> nat \<Rightarrow> cbuf" where
  "cstr b p = cstring (drop p b)"

section \<open>Kernel state, console and faults\<close>

text \<open>
  \<^verbatim>\<open>cprintf\<close> belongs to the console; the model records each call of this file, the
  format string with the values passed, in the order of the calls. Memory is one 32-bit
  cell per address, which is how the monitor reads and writes it (page-table entries
  and stack words). A call that does not come back is a fault: \<^verbatim>\<open>panic\<close>, or a
  read or write through the null pointer.
\<close>

datatype fmtarg = U32 u32 | I32 int | Str cbuf

record kstate =
  console :: "(string \<times> fmtarg list) list"
  linebuf :: cbuf
  mem :: "u32 \<Rightarrow> u32"

datatype fault = Panic string | NullDeref

definition cprintf :: "string \<Rightarrow> fmtarg list \<Rightarrow> kstate \<Rightarrow> kstate" where
  "cprintf fmt args st = st\<lparr>console := console st @ [(fmt, args)]\<rparr>"

text \<open>\<^verbatim>\<open>*p\<close> for a pointer to a 32-bit word.\<close>

definition load :: "kstate \<Rightarrow> u32 \<Rightarrow> fault + u32" where
  "load st p = (if p = 0 then Inl NullDeref else Inr (mem st p))"

fun loads :: "kstate \<Rightarrow> u32 list \<Rightarrow> fault + u32 list" where
  "loads st [] = Inr []"
| "loads st (a # as) =
     (case load st a of
        Inl f \<Rightarrow> Inl f
      | Inr v \<Rightarrow> (case loads st as of Inl f \<Rightarrow> Inl f | Inr vs \<Rightarrow> Inr (v # vs)))"

text \<open>\<^verbatim>\<open>*p = v\<close>.\<close>

definition store :: "kstate \<Rightarrow> u32 \<Rightarrow> u32 \<Rightarrow> fault + kstate" where
  "store st p v = (if p = 0 then Inl NullDeref else Inr (st\<lparr>mem := (mem st)(p := v)\<rparr>))"

section \<open>What the monitor takes from the rest of the kernel\<close>

text \<open>
  Modelled from the spec: \<^verbatim>\<open>inc/mmu.h\<close> is not among the sources. The specification
  names the permission bits of a page-table entry, Present, Writable and
  User-accessible, and the page size; their values are those of the x86 page tables the
  kernel runs on: bits 0, 1 and 2 of the entry, and pages of 4096 bytes.
\<close>

definition PTE_P :: u32 where "PTE_P = 0x001"
definition PTE_W :: u32 where "PTE_W = 0x002"
definition PTE_U :: u32 where "PTE_U = 0x004"
definition PGSIZE :: u32 where "PGSIZE = 4096"

text \<open>\<^verbatim>\<open>struct Eipdebuginfo\<close>, the fields \<^verbatim>\<open>mon_backtrace\<close> prints.\<close>

record Eipdebuginfo =
  eip_file :: cbuf
  eip_line :: int
  eip_fn_name :: cbuf
  eip_fn_namelen :: int
  eip_fn_addr :: u32

text \<open>
  The collaborators are parameters. \<open>pgdir_walk e m va\<close> is
  \<^verbatim>\<open>pgdir_walk(kern_pgdir, va, 1)\<close> on the memory \<open>m\<close>: the pointer to the entry, or 0
  when no page table could be allocated, and the memory after the call.
  \<open>debuginfo_eip\<close> is the symbol resolver, \<open>read_ebp\<close> the frame pointer at the call
  of \<^verbatim>\<open>mon_backtrace\<close>; the \<open>sym\<close> fields are the linker's symbols and \<open>KERNBASE\<close>,
  \<open>ROUNDUP\<close> the macros \<^verbatim>\<open>mon_kerninfo\<close> uses.
\<close>

record env =
  pgdir_walk :: "(u32 \<Rightarrow> u32) \<Rightarrow> u32 \<Rightarrow> u32 \<times> (u32 \<Rightarrow> u32)"
  debuginfo_eip :: "u32 \<Rightarrow> Eipdebuginfo"
  read_ebp :: u32
  print_trapframe :: "u32 \<Rightarrow> kstate \<Rightarrow> kstate"
  sym_start :: u32
  sym_entry :: u32
  sym_etext :: u32
  sym_edata :: u32
  sym_end :: u32
  KERNBASE :: u32
  ROUNDUP :: "u32 \<Rightarrow> u32 \<Rightarrow> u32"

text \<open>
  Modelled from the spec: \<^verbatim>\<open>strcmp\<close> and \<^verbatim>\<open>strchr\<close> (\<^verbatim>\<open>lib/string.c\<close>) are not
  among the sources. \<open>strcmp_eq a b\<close> is \<^verbatim>\<open>strcmp(a, b) == 0\<close>, an exact match of the two C strings;
  \<open>strchr s c\<close> is \<^verbatim>\<open>strchr(s, c) != 0\<close> for a character \<open>c\<close> that is not NUL, that
  is, \<open>c\<close> is in the set \<open>s\<close>.
\<close>

definition strcmp_eq :: "cbuf \<Rightarrow> cbuf \<Rightarrow> bool" where
  "strcmp_eq a b = (cstring a = cstring b)"

definition strchr :: "cbuf \<Rightarrow> cchar \<Rightarrow> bool" where
  "strchr s c = (c \<in> set (cstring s))"

text \<open>
  Modelled from the spec: the \<^verbatim>\<open>%x\<close> conversion of \<^verbatim>\<open>cprintf\<close> (\<^verbatim>\<open>lib/printfmt.c\<close>) is
  not among the sources. It writes an unsigned 32-bit value in lowercase hexadecimal digits
  \<^verbatim>\<open>0-9a-f\<close>, most significant first, with no leading zeros.
\<close>

definition hexdigit :: "nat \<Rightarrow> cchar" where
  "hexdigit d = lit ''0123456789abcdef'' ! d"

function hexstr :: "nat \<Rightarrow> cbuf" where
  "hexstr n = (if 16 \<le> n then hexstr (n div 16) else []) @ [hexdigit (n mod 16)]"
  by pat_completeness auto
termination
  by (relation "measure id") auto

declare hexstr.simps [simp del]

definition fmt_x :: "u32 \<Rightarrow> cbuf" where
  "fmt_x v = hexstr (unat v)"

section \<open>The hex parser\<close>

text \<open>
  \<^verbatim>\<open>xtoi\<close>: \<open>res\<close> and the array are threaded through the loop; the result is the
  value and the array as the loop leaves it.
\<close>

function xtoi_loop :: "cbuf \<Rightarrow> nat \<Rightarrow> u32 \<Rightarrow> u32 \<times> cbuf" where
  "xtoi_loop b i res =
     (if peek b i \<noteq> 0 then
        (let b' = (if ch CHR ''a'' \<le>s peek b i
                   then b[i := peek b i - ch CHR ''a'' + ch CHR ''0'' + 10]
                   else b);
             res' = res * 16 + scast (peek b' i) - scast (ch CHR ''0'')
         in xtoi_loop b' (i + 1) res')
      else (res, b))"
  by pat_completeness auto
termination
  by (relation "measure (\<lambda>(b, i, res). length b - i)") (auto simp: peek_def split: if_splits)

declare xtoi_loop.simps [simp del]

definition xtoi :: "cbuf \<Rightarrow> nat \<Rightarrow> u32 \<times> cbuf" where
  "xtoi b p = xtoi_loop b (p + 2) 0"

text \<open>
  One round of the loop, for the proofs: \<open>xnorm c\<close> is the character the round leaves
  in the cell it read \<open>c\<close> from, \<open>xstep res c\<close> the new \<open>res\<close>.
\<close>

definition xnorm :: "cchar \<Rightarrow> cchar" where
  "xnorm c = (if ch CHR ''a'' \<le>s c then c - ch CHR ''a'' + ch CHR ''0'' + 10 else c)"

definition xstep :: "u32 \<Rightarrow> cchar \<Rightarrow> u32" where
  "xstep res c = res * 16 + scast (xnorm c) - scast (ch CHR ''0'')"

section \<open>The tokenizer of \<^verbatim>\<open>runcmd\<close>\<close>

definition WHITESPACE :: cbuf where
  "WHITESPACE = [0x09, 0x0D, 0x0A, 0x20]"

definition MAXARGS :: nat where
  "MAXARGS = 16"

text \<open>\<^verbatim>\<open>while (*buf && strchr(WHITESPACE, *buf)) *buf++ = 0;\<close>\<close>

function gobble :: "cbuf \<Rightarrow> nat \<Rightarrow> cbuf \<times> nat" where
  "gobble b i =
     (if peek b i \<noteq> 0 \<and> strchr WHITESPACE (peek b i)
      then gobble (b[i := 0]) (i + 1)
      else (b, i))"
  by pat_completeness auto
termination
  by (relation "measure (\<lambda>(b, i). length b - i)") (auto simp: peek_def split: if_splits)

declare gobble.simps [simp del]

text \<open>\<^verbatim>\<open>while (*buf && !strchr(WHITESPACE, *buf)) buf++;\<close>\<close>

function skiparg :: "cbuf \<Rightarrow> nat \<Rightarrow> nat" where
  "skiparg b i =
     (if peek b i \<noteq> 0 \<and> \<not> strchr WHITESPACE (peek b i)
      then skiparg b (i + 1)
      else i)"
  by pat_completeness auto
termination
  by (relation "measure (\<lambda>(b, i). length b - i)") (auto simp: peek_def split: if_splits)

declare skiparg.simps [simp del]

text \<open>
  The outer \<^verbatim>\<open>while (1)\<close>: \<open>argv\<close> holds the pointers saved so far, so \<open>argc\<close> is its
  length. \<open>TooMany\<close> is the early \<^verbatim>\<open>return 0\<close>, \<open>Args\<close> the \<^verbatim>\<open>break\<close>; both carry the
  array as the loop leaves it.
\<close>

datatype parsed = TooMany cbuf | Args cbuf "nat list"

function parse_args :: "cbuf \<Rightarrow> nat \<Rightarrow> nat list \<Rightarrow> parsed" where
  "parse_args b i argv =
     (case gobble b i of (b', j) \<Rightarrow>
        if peek b' j = 0 then Args b' argv
        else if length argv = MAXARGS - 1 then TooMany b'
        else parse_args b' (skiparg b' j) (argv @ [j]))"
  by pat_completeness auto
termination
proof (relation "measure (\<lambda>(b, i, argv). length b - i)")
  show "wf (measure (\<lambda>(b, i, argv). length b - i))" by simp
next
  fix b :: cbuf and i :: nat and argv :: "nat list" and b' j
  assume g: "(b', j) = gobble b i" and nz: "peek b' j \<noteq> 0"
  have gob: "length (fst (gobble b i)) = length b \<and> i \<le> snd (gobble b i) \<and>
      \<not> (peek (fst (gobble b i)) (snd (gobble b i)) \<noteq> 0 \<and>
         strchr WHITESPACE (peek (fst (gobble b i)) (snd (gobble b i))))"
  proof (induction b i rule: gobble.induct)
    case (1 b i)
    show ?case
    proof (cases "peek b i \<noteq> 0 \<and> strchr WHITESPACE (peek b i)")
      case True
      then have eq: "gobble b i = gobble (b[i := 0]) (i + 1)"
        by (subst gobble.simps) simp
      from "1.IH" True show ?thesis unfolding eq by simp
    next
      case False
      then have eq: "gobble b i = (b, i)"
        by (subst gobble.simps) auto
      from False show ?thesis unfolding eq by auto
    qed
  qed
  have le: "k \<le> skiparg c k" for c k
  proof (induction c k rule: skiparg.induct)
    case (1 b i)
    show ?case
    proof (cases "peek b i \<noteq> 0 \<and> \<not> strchr WHITESPACE (peek b i)")
      case True
      with "1.IH" have "i + 1 \<le> skiparg b (i + 1)" by simp
      with True show ?thesis by (subst skiparg.simps) simp
    next
      case False
      then show ?thesis by (subst skiparg.simps) auto
    qed
  qed
  from g have b': "b' = fst (gobble b i)" and j: "j = snd (gobble b i)"
    by (metis fst_conv, metis snd_conv)
  from gob nz have len: "length b' = length b" and ij: "i \<le> j"
    and nws: "\<not> strchr WHITESPACE (peek b' j)"
    unfolding b' j by auto
  from nz have jlt: "j < length b'" by (simp add: peek_def split: if_splits)
  from nz nws have "skiparg b' j = skiparg b' (j + 1)" by (subst skiparg.simps) simp
  with le [of "j + 1" b'] have "j < skiparg b' j" by simp
  with ij jlt len
  show "((b', skiparg b' j, argv @ [j]), b, i, argv) \<in> measure (\<lambda>(b, i, argv). length b - i)"
    by simp
qed

declare parse_args.simps [simp del]

section \<open>The commands\<close>

text \<open>
  A handler takes \<open>argc\<close>, the pointers \<open>argv[0..argc-1]\<close> into the line buffer and the
  trap-frame pointer. \<open>None\<close> is a call that runs forever, \<open>Some (Inl f)\<close> one that
  ends in the fault \<open>f\<close>, \<open>Some (Inr (r, st))\<close> one that returns \<open>r\<close>.
\<close>

type_synonym handler = "int \<Rightarrow> nat list \<Rightarrow> u32 \<Rightarrow> kstate \<Rightarrow> (fault + int \<times> kstate) option"

record Command =
  name :: cbuf
  desc :: cbuf
  func :: handler

text \<open>
  \<^verbatim>\<open>mon_help\<close> prints the name and desc columns of the table it is an entry of; the
  two columns come first, the table \<open>commands\<close> below takes them from here.
\<close>

definition command_text :: "(cbuf \<times> cbuf) list" where
  "command_text =
     [(lit ''help'', lit ''Display this list of commands''),
      (lit ''kerninfo'', lit ''Display information about the kernel''),
      (lit ''backtrace'', lit ''Call mon_backtrace''),
      (lit ''showmp'', lit ''Display mapping from vm to pm''),
      (lit ''setperm'', lit ''Set permission''),
      (lit ''showvm'', lit ''Display virtual memory'')]"

definition mon_help :: handler where
  "mon_help argc argv tf st =
     Some (Inr (0, foldl (\<lambda>s (n, d). cprintf ''%s - %s\<newline>'' [Str n, Str d] s) st command_text))"

definition mon_kerninfo :: "env \<Rightarrow> handler" where
  "mon_kerninfo e argc argv tf st =
     (let st1 = cprintf ''Special kernel symbols:\<newline>'' [] st;
          st2 = cprintf ''  _start                  %08x (phys)\<newline>'' [U32 (sym_start e)] st1;
          st3 = cprintf ''  entry  %08x (virt)  %08x (phys)\<newline>''
                  [U32 (sym_entry e), U32 (sym_entry e - KERNBASE e)] st2;
          st4 = cprintf ''  etext  %08x (virt)  %08x (phys)\<newline>''
                  [U32 (sym_etext e), U32 (sym_etext e - KERNBASE e)] st3;
          st5 = cprintf ''  edata  %08x (virt)  %08x (phys)\<newline>''
                  [U32 (sym_edata e), U32 (sym_edata e - KERNBASE e)] st4;
          st6 = cprintf ''  end    %08x (virt)  %08x (phys)\<newline>''
                  [U32 (sym_end e), U32 (sym_end e - KERNBASE e)] st5;
          st7 = cprintf ''Kernel executable memory footprint: %dKB\<newline>''
                  [I32 (sint (ROUNDUP e (sym_end e - sym_entry e) 1024) sdiv 1024)] st6
      in Some (Inr (0, st7)))"

subsection \<open>\<^verbatim>\<open>mon_backtrace\<close>\<close>

text \<open>
  One round of the loop at the frame pointer \<open>p\<close>, a \<^verbatim>\<open>uint32_t *\<close>, so that \<^verbatim>\<open>p+k\<close> is
  the address \<open>p + 4 * k\<close>: the words \<^verbatim>\<open>*(p+1)\<close> to \<^verbatim>\<open>*(p+6)\<close>, the two lines printed,
  and the saved pointer \<^verbatim>\<open>*p\<close> the loop goes on with.
\<close>

definition backtrace_frame :: "env \<Rightarrow> u32 \<Rightarrow> kstate \<Rightarrow> fault + u32 \<times> kstate" where
  "backtrace_frame e p st =
     (case loads st (map (\<lambda>k. p + 4 * k) [1, 2, 3, 4, 5, 6]) of
        Inl f \<Rightarrow> Inl f
      | Inr ws \<Rightarrow>
          (let debuginfo = debuginfo_eip e (hd ws);
               st1 = cprintf ''  ebp %08x  eip %08x  args %08x %08x %08x %08x %08x\<newline>''
                       (U32 p # map U32 ws) st;
               st2 = cprintf ''         %s:%d: %.*s+%d\<newline>''
                       [Str (eip_file debuginfo), I32 (eip_line debuginfo),
                        I32 (eip_fn_namelen debuginfo), Str (eip_fn_name debuginfo),
                        U32 (hd ws - eip_fn_addr debuginfo)] st1
           in case load st2 p of Inl f \<Rightarrow> Inl f | Inr p' \<Rightarrow> Inr (p', st2)))"

text \<open>\<^verbatim>\<open>while (p) { ... p = (uint32_t*)(*p); }\<close>: nothing bounds the walk.\<close>

partial_function (option) backtrace_loop :: "env \<Rightarrow> u32 \<Rightarrow> kstate \<Rightarrow> (fault + kstate) option" where
  "backtrace_loop e p st =
     (if p \<noteq> 0 then
        (case backtrace_frame e p st of
           Inl f \<Rightarrow> Some (Inl f)
         | Inr (p', st') \<Rightarrow> backtrace_loop e p' st')
      else Some (Inr st))"

definition mon_backtrace :: "env \<Rightarrow> handler" where
  "mon_backtrace e argc argv tf st =
     (case backtrace_loop e (read_ebp e) (cprintf ''Stack backtrace:\<newline>'' [] st) of
        None \<Rightarrow> None
      | Some (Inl f) \<Rightarrow> Some (Inl f)
      | Some (Inr st') \<Rightarrow> Some (Inr (0, st')))"

subsection \<open>\<^verbatim>\<open>myprint\<close> and \<^verbatim>\<open>showmappings\<close>\<close>

definition myprint :: "u32 \<Rightarrow> kstate \<Rightarrow> fault + kstate" where
  "myprint pte st =
     (case load st pte of
        Inl f \<Rightarrow> Inl f
      | Inr v \<Rightarrow> Inr (cprintf ''PTE_P: %x, PTE_W: %x, PTE_U: %x\<newline>''
                        [U32 (v AND PTE_P), U32 (v AND PTE_W), U32 (v AND PTE_U)] st))"

text \<open>
  \<^verbatim>\<open>for(; begin <= end; begin += PGSIZE)\<close> on \<^verbatim>\<open>uint32_t\<close>: the comparison is unsigned
  and the step wraps around, so the loop need not end.
\<close>

partial_function (option) showmappings_loop ::
    "env \<Rightarrow> u32 \<Rightarrow> u32 \<Rightarrow> kstate \<Rightarrow> (fault + kstate) option" where
  "showmappings_loop e begin_va end_va st =
     (if begin_va \<le> end_va then
        (case pgdir_walk e (mem st) begin_va of (pte, m) \<Rightarrow>
           if pte = 0 then Some (Inl (Panic ''out of memory''))
           else if m pte AND PTE_P \<noteq> 0 then
             (case myprint pte (cprintf ''page %x info as follow: '' [U32 begin_va] (st\<lparr>mem := m\<rparr>)) of
                Inl f \<Rightarrow> Some (Inl f)
              | Inr st' \<Rightarrow> showmappings_loop e (begin_va + PGSIZE) end_va st')
           else showmappings_loop e (begin_va + PGSIZE) end_va
                  (cprintf ''page not exist: %x\<newline>'' [U32 begin_va] (st\<lparr>mem := m\<rparr>)))
      else Some (Inr st))"

definition showmappings :: "env \<Rightarrow> handler" where
  "showmappings e argc argv tf st =
     (if argc \<noteq> 3 then
        Some (Inr (0, cprintf ''Usage: showmappings 0xbegin_addr 0xend_addr\<newline>'' [] st))
      else
        (case xtoi (linebuf st) (argv ! 1) of (begin_va, b1) \<Rightarrow>
         case xtoi b1 (argv ! 2) of (end_va, b2) \<Rightarrow>
           (case showmappings_loop e begin_va end_va
                   (cprintf ''RANGE: from %x to %x\<newline>'' [U32 begin_va, U32 end_va]
                      (st\<lparr>linebuf := b2\<rparr>)) of
              None \<Rightarrow> None
            | Some (Inl f) \<Rightarrow> Some (Inl f)
            | Some (Inr st') \<Rightarrow> Some (Inr (0, st')))))"

subsection \<open>\<^verbatim>\<open>setm\<close>\<close>

text \<open>The \<^verbatim>\<open>switch\<close> on \<^verbatim>\<open>argv[3][0]\<close>; \<open>None\<close> is its \<^verbatim>\<open>default\<close> branch.\<close>

definition setm_perm :: "cchar \<Rightarrow> u32 option" where
  "setm_perm c =
     (if c = ch CHR ''P'' then Some PTE_P
      else if c = ch CHR ''W'' then Some PTE_W
      else if c = ch CHR ''U'' then Some PTE_U
      else None)"

definition setm_usage :: string where
  "setm_usage = ''Usage: setm 0xaddr [clear(0)|set(1)] [P|W|U]\<newline>''"

text \<open>
  The pointer \<^verbatim>\<open>pgdir_walk\<close> returns is used as it comes, with no test for 0:
  \<^verbatim>\<open>myprint\<close> reads through it first.
\<close>

definition setm :: "env \<Rightarrow> handler" where
  "setm e argc argv tf st =
     (if argc \<noteq> 4 then Some (Inr (0, cprintf setm_usage [] st))
      else
        (case xtoi (linebuf st) (argv ! 1) of (addr, b1) \<Rightarrow>
         case pgdir_walk e (mem st) addr of (pte, m) \<Rightarrow>
         case myprint pte (cprintf ''%x before setperm: '' [U32 addr] (st\<lparr>linebuf := b1, mem := m\<rparr>)) of
           Inl f \<Rightarrow> Some (Inl f)
         | Inr st1 \<Rightarrow>
             (case setm_perm (peek b1 (argv ! 3)) of
                None \<Rightarrow> Some (Inr (0, cprintf setm_usage [] st1))
              | Some perm \<Rightarrow>
                  (case (if peek b1 (argv ! 2) = ch CHR ''0''
                         then store st1 pte (mem st1 pte AND NOT perm)
                         else store st1 pte (mem st1 pte OR perm)) of
                     Inl f \<Rightarrow> Some (Inl f)
                   | Inr st2 \<Rightarrow>
                       (case myprint pte (cprintf ''%x after setperm: '' [U32 addr] st2) of
                          Inl f \<Rightarrow> Some (Inl f)
                        | Inr st3 \<Rightarrow> Some (Inr (0, st3)))))))"

subsection \<open>\<^verbatim>\<open>showvm\<close>\<close>

text \<open>
  \<^verbatim>\<open>for (int i = 0; i < n; ++i)\<close> with \<open>n\<close> unsigned: the comparison is unsigned, so
  \<open>i\<close> is a 32-bit counter that runs from 0 to \<open>n\<close>; \<^verbatim>\<open>addr + i\<close> on a \<^verbatim>\<open>void **\<close> is
  the address \<open>addr + 4 * i\<close>.
\<close>

function showvm_loop :: "u32 \<Rightarrow> u32 \<Rightarrow> u32 \<Rightarrow> kstate \<Rightarrow> fault + kstate" where
  "showvm_loop addr i n st =
     (if i < n then
        (case load st (addr + 4 * i) of
           Inl f \<Rightarrow> Inl f
         | Inr v \<Rightarrow> showvm_loop addr (i + 1) n
                     (cprintf ''VM at %x: %x\<newline>'' [U32 (addr + 4 * i), U32 v] st))
      else Inr st)"
  by pat_completeness auto
termination
proof (relation "measure (\<lambda>(addr, i, n, st). unat n - unat i)")
  show "wf (measure (\<lambda>(addr, i, n, st). unat n - unat i))" by simp
next
  fix addr i n :: u32 and st :: kstate and v :: u32
  assume "i < n"
  then have "unat n - unat (i + 1) < unat n - unat i" by unat_arith
  then show "((addr, i + 1, n, cprintf ''VM at %x: %x\<newline>'' [U32 (addr + 4 * i), U32 v] st),
      addr, i, n, st) \<in> measure (\<lambda>(addr, i, n, st). unat n - unat i)"
    by simp
qed

declare showvm_loop.simps [simp del]

definition showvm :: handler where
  "showvm argc argv tf st =
     (if argc \<noteq> 3 then Some (Inr (0, cprintf ''Usage: showvm 0xaddr 0xn\<newline>'' [] st))
      else
        (case xtoi (linebuf st) (argv ! 1) of (addr, b1) \<Rightarrow>
         case xtoi b1 (argv ! 2) of (n, b2) \<Rightarrow>
           (case showvm_loop addr 0 n (st\<lparr>linebuf := b2\<rparr>) of
              Inl f \<Rightarrow> Some (Inl f)
            | Inr st' \<Rightarrow> Some (Inr (0, st')))))"

section \<open>The command table and the interpreter\<close>

definition commands :: "env \<Rightarrow> Command list" where
  "commands e =
     [\<lparr>name = lit ''help'', desc = lit ''Display this list of commands'', func = mon_help\<rparr>,
      \<lparr>name = lit ''kerninfo'', desc = lit ''Display information about the kernel'',
       func = mon_kerninfo e\<rparr>,
      \<lparr>name = lit ''backtrace'', desc = lit ''Call mon_backtrace'', func = mon_backtrace e\<rparr>,
      \<lparr>name = lit ''showmp'', desc = lit ''Display mapping from vm to pm'', func = showmappings e\<rparr>,
      \<lparr>name = lit ''setperm'', desc = lit ''Set permission'', func = setm e\<rparr>,
      \<lparr>name = lit ''showvm'', desc = lit ''Display virtual memory'', func = showvm\<rparr>]"

text \<open>
  The \<^verbatim>\<open>for\<close> loop of \<^verbatim>\<open>runcmd\<close> over the table, and what follows it when no name
  matches.
\<close>

fun lookup_invoke :: "Command list \<Rightarrow> int \<Rightarrow> nat list \<Rightarrow> u32 \<Rightarrow> kstate \<Rightarrow> (fault + int \<times> kstate) option" where
  "lookup_invoke [] argc argv tf st =
     Some (Inr (0, cprintf (''Unknown command '' @ [CHR 0x27] @ ''%s'' @ [CHR 0x27] @ ''\<newline>'')
                     [Str (cstr (linebuf st) (argv ! 0))] st))"
| "lookup_invoke (c # cs) argc argv tf st =
     (if strcmp_eq (drop (argv ! 0) (linebuf st)) (name c) then func c argc argv tf st
      else lookup_invoke cs argc argv tf st)"

text \<open>
  \<^verbatim>\<open>runcmd\<close>. The source reads the static table \<open>commands\<close>; here the table is an
  argument, and \<open>monitor\<close> passes \<open>commands\<close>. \<open>buf\<close> is the array the line was read
  into, the pointer \<^verbatim>\<open>buf\<close> its index 0; the handlers find the array in \<open>linebuf\<close>.
\<close>

definition runcmd :: "Command list \<Rightarrow> cbuf \<Rightarrow> u32 \<Rightarrow> kstate \<Rightarrow> (fault + int \<times> kstate) option" where
  "runcmd cmds buf tf st =
     (case parse_args buf 0 [] of
        TooMany b \<Rightarrow>
          Some (Inr (0, cprintf ''Too many arguments (max %d)\<newline>'' [I32 (int MAXARGS)]
                          (st\<lparr>linebuf := b\<rparr>)))
      | Args b argv \<Rightarrow>
          if length argv = 0 then Some (Inr (0, st\<lparr>linebuf := b\<rparr>))
          else lookup_invoke cmds (int (length argv)) argv tf (st\<lparr>linebuf := b\<rparr>))"

section \<open>The monitor loop\<close>

text \<open>
  \<^verbatim>\<open>readline\<close> belongs to the console: the lines it returns are the list \<open>lines\<close>,
  \<open>None\<close> for a null result. The loop has no end of its own, so a run is a finite
  prefix of it: \<open>Exited\<close> when the \<^verbatim>\<open>break\<close> was taken, \<open>Reading\<close> when every line
  given has been handled and the loop is back in \<^verbatim>\<open>readline\<close>.
\<close>

datatype mon_end = Exited | Reading

fun monitor_loop :: "env \<Rightarrow> u32 \<Rightarrow> cbuf option list \<Rightarrow> kstate \<Rightarrow> (fault + mon_end \<times> kstate) option" where
  "monitor_loop e tf [] st = Some (Inr (Reading, st))"
| "monitor_loop e tf (None # lines) st = monitor_loop e tf lines st"
| "monitor_loop e tf (Some buf # lines) st =
     (case runcmd (commands e) buf tf st of
        None \<Rightarrow> None
      | Some (Inl f) \<Rightarrow> Some (Inl f)
      | Some (Inr (r, st')) \<Rightarrow>
          if r < 0 then Some (Inr (Exited, st')) else monitor_loop e tf lines st')"

definition monitor :: "env \<Rightarrow> u32 \<Rightarrow> cbuf option list \<Rightarrow> kstate \<Rightarrow> (fault + mon_end \<times> kstate) option" where
  "monitor e tf lines st =
     (let st1 = cprintf ''Welcome to the JOS kernel monitor!\<newline>'' [] st;
          st2 = cprintf (''Type '' @ [CHR 0x27] @ ''help'' @ [CHR 0x27] @ '' for a list of commands.\<newline>'')
                  [] st1;
          st3 = (if tf \<noteq> 0 then print_trapframe e tf st2 else st2)
      in monitor_loop e tf lines st3)"

section \<open>The words of the specification\<close>

text \<open>
  The whitespace set of the specification: tab, carriage return, newline and space.
\<close>

definition isws :: "cchar \<Rightarrow> bool" where
  "isws c = (c = 0x09 \<or> c = 0x0D \<or> c = 0x0A \<or> c = 0x20)"

text \<open>
  The tokens of a line, in the words of the specification: the maximal runs of
  characters outside the whitespace set, in the order of the line. \<open>tokens_acc cur s\<close>
  reads \<open>s\<close> with the token \<open>cur\<close> begun. The line is the C string in the buffer.
\<close>

fun tokens_acc :: "cbuf \<Rightarrow> cbuf \<Rightarrow> cbuf list" where
  "tokens_acc cur [] = (if cur = [] then [] else [cur])"
| "tokens_acc cur (c # cs) =
     (if isws c then (if cur = [] then [] else [cur]) @ tokens_acc [] cs
      else tokens_acc (cur @ [c]) cs)"

definition tokens :: "cbuf \<Rightarrow> cbuf list" where
  "tokens line = tokens_acc [] (cstring line)"

text \<open>The array a \<open>parsed\<close> result carries.\<close>

fun parsed_buf :: "parsed \<Rightarrow> cbuf" where
  "parsed_buf (TooMany b) = b"
| "parsed_buf (Args b argv) = b"

text \<open>
  A frame chain in the memory \<open>m\<close>, rooted at \<open>p\<close>: the frames \<open>fs\<close> in the order from
  \<open>p\<close> to the root, each the saved pointer of the one before it, the last one with the
  saved pointer 0. A frame is not at address 0 and its seven words, the saved pointer,
  the return address and the five words behind it, lie inside the address space.
\<close>

fun frame_chain :: "(u32 \<Rightarrow> u32) \<Rightarrow> u32 \<Rightarrow> u32 list \<Rightarrow> bool" where
  "frame_chain m p [] = (p = 0)"
| "frame_chain m p (f # fs) =
     (p = f \<and> f \<noteq> 0 \<and> unat f + 28 \<le> 2 ^ 32 \<and> frame_chain m (m f) fs)"

text \<open>
  What the specification has the walker print for the frame at \<open>p\<close>: the frame pointer,
  the return address at \<open>p + 4\<close>, the five words behind it, and the symbol information
  of the return address with its offset from the start of the function.
\<close>

definition frame_report :: "env \<Rightarrow> (u32 \<Rightarrow> u32) \<Rightarrow> u32 \<Rightarrow> (string \<times> fmtarg list) list" where
  "frame_report e m p =
     [(''  ebp %08x  eip %08x  args %08x %08x %08x %08x %08x\<newline>'',
       [U32 p, U32 (m (p + 4)), U32 (m (p + 8)), U32 (m (p + 12)), U32 (m (p + 16)),
        U32 (m (p + 20)), U32 (m (p + 24))]),
      (''         %s:%d: %.*s+%d\<newline>'',
       [Str (eip_file (debuginfo_eip e (m (p + 4)))),
        I32 (eip_line (debuginfo_eip e (m (p + 4)))),
        I32 (eip_fn_namelen (debuginfo_eip e (m (p + 4)))),
        Str (eip_fn_name (debuginfo_eip e (m (p + 4)))),
        U32 (m (p + 4) - eip_fn_addr (debuginfo_eip e (m (p + 4))))])]"

text \<open>
  The lookups of the range loop: \<open>lookups_ok e m b n\<close> says that in the first \<open>n\<close>
  rounds of the loop started at \<open>b\<close> in the memory \<open>m\<close>, every call of \<^verbatim>\<open>pgdir_walk\<close>
  returns an entry. The loop hands the memory one lookup leaves to the next.
\<close>

fun lookups_ok :: "env \<Rightarrow> (u32 \<Rightarrow> u32) \<Rightarrow> u32 \<Rightarrow> nat \<Rightarrow> bool" where
  "lookups_ok e m b 0 = True"
| "lookups_ok e m b (Suc n) =
     (case pgdir_walk e m b of (pte, m') \<Rightarrow> pte \<noteq> 0 \<and> lookups_ok e m' (b + PGSIZE) n)"

section \<open>Example inputs\<close>

text \<open>
  A kernel to run the commands in: one page table, at \<open>0xF0400000\<close>, that
  \<open>pgdir_walk\<close> indexes by the page number of the address and never needs to
  allocate; a symbol resolver with one function; and the same kernel out of memory,
  where every \<open>pgdir_walk\<close> returns the null pointer.
\<close>

definition demo_env :: env where
  "demo_env =
     \<lparr>pgdir_walk = (\<lambda>m va. (0xF0400000 OR push_bit 2 (drop_bit 12 va AND 0x3FF), m)),
      debuginfo_eip = (\<lambda>eip. \<lparr>eip_file = lit ''kern/init.c'', eip_line = 24,
                              eip_fn_name = lit ''i386_init'', eip_fn_namelen = 9,
                              eip_fn_addr = eip AND NOT 0xFF\<rparr>),
      read_ebp = 0xF010FF78,
      print_trapframe = (\<lambda>tf st. cprintf ''TRAP frame at %p\<newline>'' [U32 tf] st),
      sym_start = 0x0010000C, sym_entry = 0xF010000C, sym_etext = 0xF0101A75,
      sym_edata = 0xF0112300, sym_end = 0xF0112960,
      KERNBASE = 0xF0000000,
      ROUNDUP = (\<lambda>a n. a + n - 1 - (a + n - 1) mod n)\<rparr>"

definition oom_env :: env where
  "oom_env = demo_env\<lparr>pgdir_walk := (\<lambda>m va. (0, m))\<rparr>"

text \<open>The line \<^verbatim>\<open>setperm 0x1000 0 W\<close> and the line \<^verbatim>\<open>setperm 0x1000 1 X\<close>, tokenized.\<close>

definition setperm_clear_W :: cbuf where
  "setperm_clear_W = lit ''setperm'' @ 0 # lit ''0x1000'' @ 0 # lit ''0'' @ 0 # lit ''W''"


section \<open>Facts about the line buffer and the hex parser\<close>

lemma peek_nonzero_in_range: "peek b i \<noteq> 0 \<Longrightarrow> i < length b"
  by (simp add: peek_def split: if_splits)

lemma peek_drop: "peek b i = peek (drop i b) 0"
  by (simp add: peek_def)

lemma xtoi_loop_stop: "peek b i = 0 \<Longrightarrow> xtoi_loop b i res = (res, b)"
  by (subst xtoi_loop.simps) simp

lemma xtoi_loop_step:
  assumes "peek b i \<noteq> 0"
  shows "xtoi_loop b i res = xtoi_loop (b[i := xnorm (peek b i)]) (Suc i) (xstep res (peek b i))"
proof -
  have len: "i < length b" using assms by (rule peek_nonzero_in_range)
  have nth: "b ! i = peek b i" using len by (simp add: peek_def)
  show ?thesis
  proof (cases "ch CHR ''a'' \<le>s peek b i")
    case True
    then have xn: "xnorm (peek b i) = peek b i - ch CHR ''a'' + ch CHR ''0'' + 10"
      by (simp add: xnorm_def)
    have pk: "peek (b[i := xnorm (peek b i)]) i = xnorm (peek b i)"
      using len by (simp add: peek_def)
    show ?thesis
      apply (subst xtoi_loop.simps)
      apply (simp only: assms True if_True Let_def xn [symmetric] pk xstep_def)
      apply simp
      done
  next
    case False
    then have xn: "xnorm (peek b i) = peek b i" by (simp add: xnorm_def)
    have same: "b[i := peek b i] = b" using nth by (metis list_update_id)
    show ?thesis
      apply (subst xtoi_loop.simps)
      apply (simp only: assms False if_False if_True Let_def xn same xstep_def not_False_eq_True)
      apply simp
      done
  qed
qed

text \<open>
  The loop on an array \<open>pre @ ds @ post\<close>, started behind \<open>pre\<close>, where \<open>ds\<close> has no NUL
  and \<open>post\<close> is empty or starts with one: it folds \<open>xstep\<close> over \<open>ds\<close> and leaves
  \<open>xnorm\<close> of every character of \<open>ds\<close> in the array.
\<close>

lemma xtoi_loop_run:
  assumes "\<forall>c\<in>set ds. c \<noteq> 0" and "post = [] \<or> hd post = 0"
  shows "xtoi_loop (pre @ ds @ post) (length pre) res =
         (foldl xstep res ds, pre @ map xnorm ds @ post)"
  using assms
proof (induction ds arbitrary: pre res)
  case Nil
  then have "peek (pre @ post) (length pre) = 0"
    by (cases post) (auto simp: peek_def)
  then show ?case
    by (simp add: xtoi_loop_stop)
next
  case (Cons c cs)
  have nz: "c \<noteq> 0" using Cons.prems by simp
  have pk: "peek (pre @ (c # cs) @ post) (length pre) = c"
    by (simp add: peek_def)
  have upd: "(pre @ (c # cs) @ post)[length pre := xnorm c] = (pre @ [xnorm c]) @ cs @ post"
    by simp
  have ih: "xtoi_loop ((pre @ [xnorm c]) @ cs @ post) (length (pre @ [xnorm c])) (xstep res c) =
          (foldl xstep (xstep res c) cs, (pre @ [xnorm c]) @ map xnorm cs @ post)"
    using Cons.IH [of "pre @ [xnorm c]" "xstep res c"] Cons.prems by simp
  have "xtoi_loop (pre @ (c # cs) @ post) (length pre) res =
        xtoi_loop ((pre @ [xnorm c]) @ cs @ post) (Suc (length pre)) (xstep res c)"
    using xtoi_loop_step [of "pre @ (c # cs) @ post" "length pre" res] nz
    by (simp only: pk upd) simp
  then show ?case using ih by simp
qed

text \<open>Every array splits this way at every index.\<close>

lemma buffer_split:
  "b = take i b @ cstring (drop i b) @ drop (i + length (cstring (drop i b))) b \<and>
   (drop (i + length (cstring (drop i b))) b = [] \<or>
    hd (drop (i + length (cstring (drop i b))) b) = 0)"
proof -
  let ?s = "drop i b"
  have s: "?s = cstring ?s @ dropWhile (\<lambda>c. c \<noteq> 0) ?s"
    by (simp add: cstring_def)
  have d: "drop (i + length (cstring ?s)) b = dropWhile (\<lambda>c. c \<noteq> 0) ?s"
    by (metis s append_eq_conv_conj drop_drop add.commute)
  have "dropWhile (\<lambda>c. c \<noteq> 0) ?s = [] \<or> hd (dropWhile (\<lambda>c. c \<noteq> 0) ?s) = 0"
    by (metis (mono_tags, lifting) hd_dropWhile)
  moreover have "b = take i b @ cstring ?s @ dropWhile (\<lambda>c. c \<noteq> 0) ?s"
    using s by (metis append_take_drop_id)
  ultimately show ?thesis unfolding d by simp
qed

lemma cstring_nonzero: "\<forall>c\<in>set (cstring s). c \<noteq> 0"
  by (auto simp: cstring_def dest: set_takeWhileD)

text \<open>\<^verbatim>\<open>xtoi\<close> on any array and pointer, in closed form.\<close>

lemma xtoi_closed_form:
  "xtoi b p =
     (foldl xstep 0 (cstr b (p + 2)),
      take (p + 2) b @ map xnorm (cstr b (p + 2)) @ drop (p + 2 + length (cstr b (p + 2))) b)"
proof (cases "p + 2 \<le> length b")
  case True
  let ?ds = "cstr b (p + 2)"
  let ?post = "drop (p + 2 + length ?ds) b"
  have split: "b = take (p + 2) b @ ?ds @ ?post" and post: "?post = [] \<or> hd ?post = 0"
    using buffer_split [of b "p + 2"] by (simp_all add: cstr_def)
  have len: "length (take (p + 2) b) = p + 2" using True by simp
  have "xtoi_loop (take (p + 2) b @ ?ds @ ?post) (length (take (p + 2) b)) 0 =
        (foldl xstep 0 ?ds, take (p + 2) b @ map xnorm ?ds @ ?post)"
    using cstring_nonzero post by (intro xtoi_loop_run) (simp_all add: cstr_def)
  then show ?thesis
    unfolding xtoi_def len using split by simp
next
  case False
  then have "peek b (p + 2) = 0" by (simp add: peek_def)
  moreover from False have "cstr b (p + 2) = []" by (simp add: cstr_def cstring_def)
  ultimately show ?thesis using False by (simp add: xtoi_def xtoi_loop_stop)
qed

subsection \<open>Formatting with \<^verbatim>\<open>%x\<close> and parsing back\<close>

lemma hexdigit_cases:
  assumes "d < 16"
  shows "hexdigit d \<noteq> 0 \<and> xstep r (hexdigit d) = r * 16 + of_nat d"
proof -
  from assms have "d = 0 \<or> d = 1 \<or> d = 2 \<or> d = 3 \<or> d = 4 \<or> d = 5 \<or> d = 6 \<or> d = 7 \<or>
      d = 8 \<or> d = 9 \<or> d = 10 \<or> d = 11 \<or> d = 12 \<or> d = 13 \<or> d = 14 \<or> d = 15"
    by arith
  then show ?thesis
    by (elim disjE) (simp_all add: hexdigit_def lit_def xstep_def xnorm_def word_sle_eq)
qed

lemma hexstr_nonzero: "\<forall>c\<in>set (hexstr n). c \<noteq> 0"
proof (induction n rule: hexstr.induct)
  case (1 n)
  have "hexdigit (n mod 16) \<noteq> 0" using hexdigit_cases [of "n mod 16"] by simp
  with "1.IH" show ?case by (subst hexstr.simps) auto
qed

lemma foldl_xstep_hexstr: "foldl xstep 0 (hexstr n) = of_nat n"
proof (induction n rule: hexstr.induct)
  case (1 n)
  have step: "xstep r (hexdigit (n mod 16)) = r * 16 + of_nat (n mod 16)" for r
    using hexdigit_cases [of "n mod 16"] by simp
  show ?case
  proof (cases "16 \<le> n")
    case True
    with "1.IH" have "foldl xstep 0 (hexstr (n div 16)) = of_nat (n div 16)" by simp
    then have "foldl xstep 0 (hexstr n) = (of_nat (n div 16) :: u32) * 16 + of_nat (n mod 16)"
      using True by (subst hexstr.simps) (simp add: step)
    moreover have "(of_nat (n div 16 * 16 + n mod 16) :: u32) =
        of_nat (n div 16) * 16 + of_nat (n mod 16)"
      by (simp only: of_nat_add of_nat_mult of_nat_numeral)
    ultimately have "foldl xstep 0 (hexstr n) = (of_nat (n div 16 * 16 + n mod 16) :: u32)"
      by (simp only:)
    then show ?thesis by (simp only: div_mult_mod_eq)
  next
    case False
    then have "xstep 0 (hexdigit n) = of_nat n"
      using hexdigit_cases [of n 0] by simp
    with False show ?thesis by (subst hexstr.simps) simp
  qed
qed

lemma cstr_at_token:
  assumes "\<forall>c\<in>set ds. c \<noteq> 0" and "post = [] \<or> hd post = 0"
  shows "cstr (pre @ ds @ post) (length pre) = ds"
proof -
  have "cstring (ds @ post) = ds"
    using assms by (cases post) (auto simp: cstring_def takeWhile_append2 takeWhile_eq_all_conv)
  then show ?thesis by (simp add: cstr_def)
qed

lemma xtoi_fmt_x:
  assumes "post = [] \<or> hd post = 0"
  shows "fst (xtoi (pre @ lit ''0x'' @ fmt_x v @ post) (length pre)) = v"
proof -
  have "cstr ((pre @ lit ''0x'') @ fmt_x v @ post) (length (pre @ lit ''0x'')) = fmt_x v"
    using hexstr_nonzero assms by (intro cstr_at_token) (simp_all add: fmt_x_def)
  then have "cstr (pre @ lit ''0x'' @ fmt_x v @ post) (length pre + 2) = fmt_x v"
    by (simp add: lit_def)
  then have "fst (xtoi (pre @ lit ''0x'' @ fmt_x v @ post) (length pre)) = foldl xstep 0 (fmt_x v)"
    by (simp add: xtoi_closed_form)
  then show ?thesis by (simp add: fmt_x_def foldl_xstep_hexstr)
qed

text \<open>
  C4. For every unsigned 32-bit value \<open>v\<close>: the token \<^verbatim>\<open>0x\<close> followed by \<open>v\<close> written
  with \<^verbatim>\<open>%x\<close> (lowercase digits \<^verbatim>\<open>0-9a-f\<close>, no leading zeros), standing anywhere in
  the line buffer and ended by the end of the line or by a NUL, is parsed by \<^verbatim>\<open>xtoi\<close>
  to \<open>v\<close> again.
\<close>

theorem xtoi_fmt_x_roundtrip:
  "fst (xtoi (pre @ lit ''0x'' @ fmt_x v) (length pre)) = v \<and>
   fst (xtoi (pre @ lit ''0x'' @ fmt_x v @ 0 # post) (length pre)) = v"
  using xtoi_fmt_x [of "[]" pre v] xtoi_fmt_x [of "0 # post" pre v] by simp

theorem xtoi_fmt_x_roundtrip_witness:
  "fmt_x 0x1f = lit ''1f'' \<and>
   fst (xtoi (lit ''showvm 0x1f'') 7) = 0x1f \<and>
   fst (xtoi (lit ''showvm '' @ lit ''0x1f'' @ 0 # lit ''0x4'') 7) = 0x1f"
proof -
  have f: "fmt_x 0x1f = lit ''1f''" by code_simp
  have l: "length (lit ''showvm '') = 7" by (simp add: lit_def)
  have a: "lit ''showvm '' @ lit ''0x'' @ lit ''1f'' = lit ''showvm 0x1f''"
    and b: "lit ''0x'' @ lit ''1f'' @ 0 # lit ''0x4'' = lit ''0x1f'' @ 0 # lit ''0x4''"
    by (simp_all add: lit_def)
  show ?thesis
    using xtoi_fmt_x_roundtrip [of "lit ''showvm ''" "0x1f" "lit ''0x4''"]
    unfolding f l a b by simp
qed

subsection \<open>The parser writes into its argument\<close>
















section \<open>The tokenizer against the words of the specification\<close>

lemma strchr_WHITESPACE: "strchr WHITESPACE c = isws c"
  by (auto simp: strchr_def WHITESPACE_def cstring_def isws_def)

lemma isws_nonzero: "isws c \<Longrightarrow> c \<noteq> 0"
  by (auto simp: isws_def)

lemma gobble_stop: "\<not> isws (peek b i) \<Longrightarrow> gobble b i = (b, i)"
  by (subst gobble.simps) (simp add: strchr_WHITESPACE)

lemma gobble_step: "isws (peek b i) \<Longrightarrow> gobble b i = gobble (b[i := 0]) (Suc i)"
  by (subst gobble.simps) (simp add: strchr_WHITESPACE isws_nonzero)

lemma skiparg_stop: "peek b i = 0 \<or> isws (peek b i) \<Longrightarrow> skiparg b i = i"
  by (subst skiparg.simps) (auto simp: strchr_WHITESPACE)

lemma skiparg_step: "peek b i \<noteq> 0 \<Longrightarrow> \<not> isws (peek b i) \<Longrightarrow> skiparg b i = skiparg b (Suc i)"
  by (subst skiparg.simps) (simp add: strchr_WHITESPACE)

lemma drop_peek: "peek b i \<noteq> 0 \<Longrightarrow> drop i b = peek b i # drop (Suc i) b"
  by (simp add: peek_def Cons_nth_drop_Suc split: if_splits)

lemma peek_zero_cstring: "peek b i = 0 \<Longrightarrow> cstring (drop i b) = []"
  by (cases "drop i b") (auto simp: peek_def cstring_def hd_drop_conv_nth split: if_splits
      dest: arg_cong [where f = hd])

text \<open>Gobbling leaves the rest of the array as it is, less its leading whitespace.\<close>

lemma gobble_drop:
  "drop (snd (gobble b i)) (fst (gobble b i)) = dropWhile isws (drop i b) \<and>
   \<not> isws (peek (fst (gobble b i)) (snd (gobble b i)))"
proof (induction b i rule: gobble.induct)
  case (1 b i)
  show ?case
  proof (cases "isws (peek b i)")
    case True
    then have nz: "peek b i \<noteq> 0" by (rule isws_nonzero)
    have "drop (Suc i) (b[i := 0]) = drop (Suc i) b" by simp
    moreover have "dropWhile isws (drop i b) = dropWhile isws (drop (Suc i) b)"
      using True by (simp add: drop_peek [OF nz])
    ultimately show ?thesis
      using "1.IH" True nz by (simp add: gobble_step strchr_WHITESPACE)
  next
    case False
    have "dropWhile isws (drop i b) = drop i b"
    proof (cases "i < length b")
      case True
      with False show ?thesis by (simp add: peek_def Cons_nth_drop_Suc [symmetric])
    qed simp
    with False show ?thesis by (simp add: gobble_stop)
  qed
qed

text \<open>Skipping an argument runs over the characters that are neither NUL nor whitespace.\<close>

lemma skiparg_drop:
  "skiparg b i = i + length (takeWhile (\<lambda>c. c \<noteq> 0 \<and> \<not> isws c) (drop i b))"
proof (induction b i rule: skiparg.induct)
  case (1 b i)
  show ?case
  proof (cases "peek b i \<noteq> 0 \<and> \<not> isws (peek b i)")
    case True
    then show ?thesis
      using "1.IH" by (simp add: skiparg_step strchr_WHITESPACE drop_peek)
  next
    case False
    have "takeWhile (\<lambda>c. c \<noteq> 0 \<and> \<not> isws c) (drop i b) = []"
    proof (cases "i < length b")
      case True
      with False show ?thesis by (auto simp: peek_def Cons_nth_drop_Suc [symmetric])
    qed simp
    with False show ?thesis by (auto simp: skiparg_stop)
  qed
qed

lemma peek_take: "p < i \<Longrightarrow> peek (take i b) p = peek b p"
  by (simp add: peek_def)

lemma peek_of_take_eq: "take i b' = take i b \<Longrightarrow> p < i \<Longrightarrow> peek b' p = peek b p"
  by (metis peek_take)

text \<open>What gobbling does to the array: zeros from where it starts to where it stops.\<close>

lemma gobble_array:
  "length (fst (gobble b i)) = length b \<and> i \<le> snd (gobble b i) \<and>
   take i (fst (gobble b i)) = take i b \<and>
   (\<forall>p. i \<le> p \<and> p < snd (gobble b i) \<longrightarrow> peek (fst (gobble b i)) p = 0) \<and>
   (isws (peek b i) \<longrightarrow> i < snd (gobble b i))"
proof (induction b i rule: gobble.induct)
  case (1 b i)
  show ?case
  proof (cases "isws (peek b i)")
    case False
    then show ?thesis by (auto simp: gobble_stop)
  next
    case True
    then have nz: "peek b i \<noteq> 0" by (rule isws_nonzero)
    then have len: "i < length b" by (rule peek_nonzero_in_range)
    let ?g = "gobble (b[i := 0]) (Suc i)"
    have eq: "gobble b i = ?g" using True by (rule gobble_step)
    from "1.IH" True nz have ih:
      "length (fst ?g) = length b" "Suc i \<le> snd ?g"
      "take (Suc i) (fst ?g) = take (Suc i) (b[i := 0])"
      "\<forall>p. Suc i \<le> p \<and> p < snd ?g \<longrightarrow> peek (fst ?g) p = 0"
      by (simp_all add: strchr_WHITESPACE)
    have "take i (fst ?g) = take i (take (Suc i) (fst ?g))" by simp
    also have "\<dots> = take i b" unfolding ih(3) by simp
    finally have t: "take i (fst ?g) = take i b" .
    have "peek (fst ?g) i = peek (b[i := 0]) i"
      using ih(3) by (rule peek_of_take_eq) simp
    then have z: "peek (fst ?g) i = 0" using len by (simp add: peek_def)
    have "\<forall>p. i \<le> p \<and> p < snd ?g \<longrightarrow> peek (fst ?g) p = 0"
    proof (intro allI impI)
      fix p assume p: "i \<le> p \<and> p < snd ?g"
      show "peek (fst ?g) p = 0"
      proof (cases "p = i")
        case True
        with z show ?thesis by simp
      next
        case False
        with p ih(4) show ?thesis by simp
      qed
    qed
    with ih(1,2) t show ?thesis unfolding eq by simp
  qed
qed

lemma cstring_dropWhile: "cstring (dropWhile isws s) = dropWhile isws (cstring s)"
  by (induction s) (auto simp: cstring_def isws_nonzero)

lemma tokens_acc_dropWhile: "tokens_acc [] (dropWhile isws s) = tokens_acc [] s"
  by (induction s) auto

lemma tokens_acc_run:
  "tokens_acc cur s =
     (if cur @ takeWhile (\<lambda>c. \<not> isws c) s = [] then []
      else [cur @ takeWhile (\<lambda>c. \<not> isws c) s]) @
     tokens_acc [] (dropWhile (\<lambda>c. \<not> isws c) s)"
  by (induction s arbitrary: cur) auto

lemma takeWhile_cstring:
  "takeWhile (\<lambda>c. \<not> isws c) (cstring x) = takeWhile (\<lambda>c. c \<noteq> 0 \<and> \<not> isws c) x"
  by (induction x) (auto simp: cstring_def)

lemma dropWhile_cstring:
  "dropWhile (\<lambda>c. \<not> isws c) (cstring x) = cstring (dropWhile (\<lambda>c. c \<noteq> 0 \<and> \<not> isws c) x)"
  by (induction x) (auto simp: cstring_def isws_nonzero)

lemma tokens_at_token:
  "tokens x =
     (if takeWhile (\<lambda>c. c \<noteq> 0 \<and> \<not> isws c) x = [] then []
      else [takeWhile (\<lambda>c. c \<noteq> 0 \<and> \<not> isws c) x]) @
     tokens (dropWhile (\<lambda>c. c \<noteq> 0 \<and> \<not> isws c) x)"
  unfolding tokens_def
  by (subst tokens_acc_run) (simp add: takeWhile_cstring dropWhile_cstring)

lemma tokens_dropWhile: "tokens (dropWhile isws x) = tokens x"
  by (simp add: tokens_def cstring_dropWhile tokens_acc_dropWhile)

lemma tokens_at_end: "peek b i = 0 \<Longrightarrow> tokens (drop i b) = []"
  by (simp add: tokens_def peek_zero_cstring)

text \<open>
  The tokenizer, started at \<open>i\<close> with the pointers \<open>argv\<close> saved, against the tokens
  ahead of \<open>i\<close>. It gives up exactly when pointers and tokens together are more than
  15. Otherwise it leaves the array below \<open>i\<close> as it was, and appends one pointer for
  each token ahead, in order, whose C string in the array it returns is that token.
\<close>

lemma parse_args_tokens:
  "length argv \<le> 15 \<Longrightarrow>
   (case parse_args b i argv of
      TooMany b' \<Rightarrow> 15 < length argv + length (tokens (drop i b))
    | Args b' argv' \<Rightarrow>
        length b' = length b \<and> take i b' = take i b \<and>
        (peek b i = 0 \<or> isws (peek b i) \<longrightarrow> peek b' i = 0) \<and>
        length argv' \<le> 15 \<and>
        (\<exists>new. argv' = argv @ new \<and> map (cstr b') new = tokens (drop i b)))"
proof (induction b i argv rule: parse_args.induct)
  case (1 b i argv)
  obtain b1 j where g: "gobble b i = (b1, j)" by (cases "gobble b i")
  from gobble_drop [of b i] have d: "drop j b1 = dropWhile isws (drop i b)"
    and nws: "\<not> isws (peek b1 j)" by (simp_all add: g)
  from gobble_array [of b i] have len1: "length b1 = length b" and ij: "i \<le> j"
    and tk1: "take i b1 = take i b"
    and zeros: "\<And>p. i \<le> p \<Longrightarrow> p < j \<Longrightarrow> peek b1 p = 0"
    and adv: "isws (peek b i) \<Longrightarrow> i < j"
    by (simp_all add: g)
  have stay: "b1 = b \<and> j = i" if "\<not> isws (peek b i)"
    using that g by (simp add: gobble_stop)
  have ts: "tokens (drop i b) = tokens (drop j b1)"
    by (simp add: d tokens_dropWhile)
  show ?case
  proof (cases "peek b1 j = 0")
    case True
    then have res: "parse_args b i argv = Args b1 argv"
      by (subst parse_args.simps) (simp add: g)
    have "peek b1 i = 0" if "peek b i = 0 \<or> isws (peek b i)"
    proof (cases "isws (peek b i)")
      case True
      then show ?thesis using zeros [of i] adv by simp
    next
      case False
      with that stay show ?thesis by simp
    qed
    then show ?thesis
      unfolding res using len1 tk1 "1.prems" ts True by (simp add: tokens_at_end)
  next
    case False
    let ?P = "\<lambda>c. c \<noteq> 0 \<and> \<not> isws c"
    let ?tok = "takeWhile ?P (drop j b1)"
    let ?k = "skiparg b1 j"
    have jlen: "j < length b1" using False by (rule peek_nonzero_in_range)
    have dj: "drop j b1 = peek b1 j # drop (Suc j) b1" using False by (rule drop_peek)
    have tok_ne: "?tok \<noteq> []" using False nws by (subst dj) simp
    have k: "?k = j + length ?tok" by (rule skiparg_drop)
    have jk: "j < ?k" using tok_ne k by simp
    have dk: "drop ?k b1 = dropWhile ?P (drop j b1)"
    proof -
      have "drop ?k b1 = drop (length ?tok) (drop j b1)" by (simp add: k add.commute)
      also have "\<dots> = dropWhile ?P (drop j b1)" by (rule dropWhile_eq_drop [symmetric])
      finally show ?thesis .
    qed
    have ts1: "tokens (drop i b) = ?tok # tokens (drop ?k b1)"
      unfolding ts by (subst tokens_at_token) (simp add: tok_ne dk)
    have stop: "peek b1 ?k = 0 \<or> isws (peek b1 ?k)"
    proof (cases "?k < length b1")
      case True
      then have "drop ?k b1 = peek b1 ?k # drop (Suc ?k) b1"
        by (simp add: peek_def Cons_nth_drop_Suc)
      with dk have "dropWhile ?P (drop j b1) = peek b1 ?k # drop (Suc ?k) b1" by simp
      then have "\<not> ?P (peek b1 ?k)" by (metis (mono_tags, lifting) hd_dropWhile list.sel(1) list.discI)
      then show ?thesis by simp
    next
      case False
      then show ?thesis by (simp add: peek_def)
    qed
    show ?thesis
    proof (cases "length argv = MAXARGS - 1")
      case True
      with False have "parse_args b i argv = TooMany b1"
        by (subst parse_args.simps) (simp add: g)
      then show ?thesis using True ts1 by (simp add: MAXARGS_def)
    next
      case ne: False
      with False have eq: "parse_args b i argv = parse_args b1 ?k (argv @ [j])"
        by (subst parse_args.simps) (simp add: g)
      from ne "1.prems" have "length (argv @ [j]) \<le> 15" by (simp add: MAXARGS_def)
      note ih = "1.IH" [OF g [symmetric] False ne this]
      show ?thesis
      proof (cases "parse_args b1 ?k (argv @ [j])")
        case (TooMany b')
        with ih show ?thesis unfolding eq ts1 by simp
      next
        case (Args b' argv')
        with ih obtain new where len': "length b' = length b1" and tk': "take ?k b' = take ?k b1"
          and z': "peek b' ?k = 0" and n15: "length argv' \<le> 15"
          and new: "argv' = (argv @ [j]) @ new" "map (cstr b') new = tokens (drop ?k b1)"
          using stop by auto
        have below: "peek b' p = peek b1 p" if "p < ?k" for p
          using tk' that by (rule peek_of_take_eq)
        have t: "take i b' = take i b"
        proof -
          have "take i b' = take i (take ?k b')" using ij jk by (simp add: min_def)
          also have "\<dots> = take i (take ?k b1)" by (simp only: tk')
          also have "\<dots> = take i b1" using ij jk by (simp add: min_def)
          finally show ?thesis using tk1 by simp
        qed
        have zi: "peek b' i = 0" if "peek b i = 0 \<or> isws (peek b i)"
        proof (cases "isws (peek b i)")
          case True
          then have "i < j" by (rule adv)
          then have "peek b1 i = 0" using zeros [of i] by simp
          moreover have "peek b' i = peek b1 i" using \<open>i < j\<close> jk by (intro below) simp
          ultimately show ?thesis by simp
        next
          case nw: False
          with that stay have "peek b1 j = 0" by simp
          with False show ?thesis by simp
        qed
        have tokj: "cstr b' j = ?tok"
        proof -
          have "j - length (take ?k b') = 0" using jk jlen len' by (simp add: min_def)
          then have "drop j (take ?k b' @ drop ?k b') = drop j (take ?k b') @ drop ?k b'"
            by (simp only: drop_append drop_0)
          then have "drop j b' = drop j (take ?k b') @ drop ?k b'"
            by (simp only: append_take_drop_id)
          moreover have "drop j (take ?k b') = take (?k - j) (drop j b1)"
            unfolding tk' by (simp add: drop_take)
          moreover have "take (?k - j) (drop j b1) = ?tok"
            using k by (simp add: takeWhile_eq_take [symmetric])
          ultimately have "drop j b' = ?tok @ drop ?k b'" by simp
          moreover have "cstring (drop ?k b') = []" using z' by (rule peek_zero_cstring)
          moreover have "\<forall>c\<in>set ?tok. c \<noteq> 0" by (auto dest: set_takeWhileD)
          ultimately show ?thesis
            by (simp add: cstr_def cstring_def takeWhile_append2)
        qed
        have "argv' = argv @ (j # new) \<and> map (cstr b') (j # new) = tokens (drop i b)"
          using new tokj ts1 by simp
        then have "\<exists>new. argv' = argv @ new \<and> map (cstr b') new = tokens (drop i b)" ..
        with len' len1 t zi n15 show ?thesis unfolding eq Args by simp
      qed
    qed
  qed
qed

text \<open>
  C6. A line with more than 15 tokens: \<^verbatim>\<open>runcmd\<close> reports \<^verbatim>\<open>Too many arguments\<close> and
  returns 0, and the state it returns is the one it was given with that one line on the
  console and the array as the tokenizer left it, whatever the command table holds: no
  handler runs. A line with 15 tokens or fewer: the tokenizer completes, with one
  pointer for each token of the line, and \<^verbatim>\<open>runcmd\<close> goes on to the lookup.
\<close>

theorem runcmd_too_many_arguments:
  "(15 < length (tokens buf) \<longrightarrow>
      runcmd cmds buf tf st =
        Some (Inr (0, cprintf ''Too many arguments (max %d)\<newline>'' [I32 16]
                        (st\<lparr>linebuf := parsed_buf (parse_args buf 0 [])\<rparr>)))) \<and>
   (length (tokens buf) \<le> 15 \<longrightarrow>
      (\<exists>b argv. parse_args buf 0 [] = Args b argv \<and> map (cstr b) argv = tokens buf \<and>
         runcmd cmds buf tf st =
           (if length argv = 0 then Some (Inr (0, st\<lparr>linebuf := b\<rparr>))
            else lookup_invoke cmds (int (length argv)) argv tf (st\<lparr>linebuf := b\<rparr>))))"
proof -
  have c: "case parse_args buf 0 [] of
      TooMany b' \<Rightarrow> 15 < length (tokens buf)
    | Args b' argv' \<Rightarrow> map (cstr b') argv' = tokens buf \<and> length argv' \<le> 15"
    using parse_args_tokens [where argv = "[]" and b = buf and i = 0]
    by (simp split: parsed.splits)
  show ?thesis
  proof (cases "parse_args buf 0 []")
    case (TooMany b)
    with c show ?thesis by (simp add: runcmd_def MAXARGS_def)
  next
    case (Args b argv)
    with c have "map (cstr b) argv = tokens buf" and "length argv \<le> 15" by simp_all
    then have "length (tokens buf) \<le> 15" by (metis length_map)
    with Args \<open>map (cstr b) argv = tokens buf\<close> show ?thesis by (simp add: runcmd_def)
  qed
qed

theorem runcmd_too_many_arguments_witness:
  "15 < length (tokens (lit ''a b c d e f g h i j k l m n o p'')) \<and>
   runcmd [\<lparr>name = lit ''a'', desc = [], func = (\<lambda>argc argv tf st. Some (Inr (- 1, st)))\<rparr>]
     (lit ''a b c d e f g h i j k l m n o p'') 0 \<lparr>console = [], linebuf = [], mem = (\<lambda>a. 0)\<rparr> =
     Some (Inr (0, \<lparr>console = [(''Too many arguments (max %d)\<newline>'', [I32 16])],
                     linebuf = parsed_buf (parse_args (lit ''a b c d e f g h i j k l m n o p'') 0 []),
                     mem = (\<lambda>a. 0)\<rparr>)) \<and>
   length (tokens (lit ''a b c d e f g h i j k l m n o'')) \<le> 15 \<and>
   (\<exists>b argv. parse_args (lit ''a b c d e f g h i j k l m n o'') 0 [] = Args b argv \<and>
      map (cstr b) argv = tokens (lit ''a b c d e f g h i j k l m n o''))"
proof -
  have n16: "length (tokens (lit ''a b c d e f g h i j k l m n o p'')) = 16"
    by (simp add: tokens_def cstring_def lit_def isws_def)
  have n15: "length (tokens (lit ''a b c d e f g h i j k l m n o'')) = 15"
    by (simp add: tokens_def cstring_def lit_def isws_def)
  show ?thesis
    using runcmd_too_many_arguments [of "lit ''a b c d e f g h i j k l m n o p''"
        "[\<lparr>name = lit ''a'', desc = [], func = (\<lambda>argc argv tf st. Some (Inr (- 1, st)))\<rparr>]"
        0 "\<lparr>console = [], linebuf = [], mem = (\<lambda>a. 0)\<rparr>"]
      runcmd_too_many_arguments [of "lit ''a b c d e f g h i j k l m n o''" "[]" 0
        "\<lparr>console = [], linebuf = [], mem = (\<lambda>a. 0)\<rparr>"]
    unfolding n16 n15 by (auto simp: cprintf_def)
qed

section \<open>Dispatch\<close>

lemma lookup_invoke_first:
  assumes "\<forall>d\<in>set pre. \<not> strcmp_eq (drop (argv ! 0) (linebuf st)) (name d)"
    and "strcmp_eq (drop (argv ! 0) (linebuf st)) (name c)"
  shows "lookup_invoke (pre @ c # post) argc argv tf st = func c argc argv tf st"
  using assms by (induction pre) simp_all

lemma lookup_invoke_unknown:
  assumes "\<forall>d\<in>set cmds. \<not> strcmp_eq (drop (argv ! 0) (linebuf st)) (name d)"
  shows "lookup_invoke cmds argc argv tf st =
         Some (Inr (0, cprintf (''Unknown command '' @ [CHR 0x27] @ ''%s'' @ [CHR 0x27] @ ''\<newline>'')
                         [Str (cstr (linebuf st) (argv ! 0))] st))"
  using assms by (induction cmds) simp_all

text \<open>
  C2. Let the line have the tokens \<open>t # ts\<close>, at most 15, and let the table be
  \<open>pre @ c # post\<close> where the name of \<open>c\<close> is exactly the first token \<open>t\<close> and no entry
  of \<open>pre\<close> has that name. Then \<^verbatim>\<open>runcmd\<close> is the call of the handler of \<open>c\<close> with
  \<open>argc\<close>, the trap-frame pointer and the argument vector the tokenizer built, whose
  strings are all the tokens of the line, and returns what that call returns. Nothing
  is asked of \<open>post\<close>: an entry there with the same name is never reached.
\<close>

theorem runcmd_first_match:
  assumes "tokens buf = t # ts" and "length (t # ts) \<le> 15"
    and "cstring (name c) = t"
    and "\<forall>d\<in>set pre. cstring (name d) \<noteq> t"
  shows "\<exists>b argv. parse_args buf 0 [] = Args b argv \<and> map (cstr b) argv = t # ts \<and>
           runcmd (pre @ c # post) buf tf st =
             func c (int (length argv)) argv tf (st\<lparr>linebuf := b\<rparr>)"
proof -
  have c: "case parse_args buf 0 [] of
      TooMany b' \<Rightarrow> 15 < length (tokens buf)
    | Args b' argv' \<Rightarrow> map (cstr b') argv' = tokens buf"
    using parse_args_tokens [where argv = "[]" and b = buf and i = 0]
    by (simp split: parsed.splits)
  with assms(1,2) obtain b argv where p: "parse_args buf 0 [] = Args b argv"
    and m: "map (cstr b) argv = t # ts"
    by (cases "parse_args buf 0 []") auto
  from m have ne: "argv \<noteq> []" and first: "cstr b (argv ! 0) = t"
    by (auto simp: map_eq_Cons_conv)
  have "strcmp_eq (drop (argv ! 0) (linebuf (st\<lparr>linebuf := b\<rparr>))) (name c)"
    using assms(3) first by (simp add: strcmp_eq_def cstr_def)
  moreover have "\<forall>d\<in>set pre. \<not> strcmp_eq (drop (argv ! 0) (linebuf (st\<lparr>linebuf := b\<rparr>))) (name d)"
    using assms(4) first by (auto simp: strcmp_eq_def cstr_def)
  ultimately have "lookup_invoke (pre @ c # post) (int (length argv)) argv tf (st\<lparr>linebuf := b\<rparr>) =
      func c (int (length argv)) argv tf (st\<lparr>linebuf := b\<rparr>)"
    by (rule lookup_invoke_first [rotated])
  with p ne have "runcmd (pre @ c # post) buf tf st =
      func c (int (length argv)) argv tf (st\<lparr>linebuf := b\<rparr>)"
    by (simp add: runcmd_def)
  with p m have "parse_args buf 0 [] = Args b argv \<and> map (cstr b) argv = t # ts \<and>
      runcmd (pre @ c # post) buf tf st = func c (int (length argv)) argv tf (st\<lparr>linebuf := b\<rparr>)"
    by simp
  then show ?thesis by (intro exI)
qed

theorem runcmd_first_match_witness:
  "tokens (lit ''help  me'') = [lit ''help'', lit ''me''] \<and>
   parse_args (lit ''help  me'') 0 [] = Args (lit ''help'' @ [0, 0] @ lit ''me'') [0, 6] \<and>
   runcmd ([\<lparr>name = lit ''helper'', desc = [], func = (\<lambda>argc argv tf st. Some (Inr (7, st)))\<rparr>] @
           \<lparr>name = lit ''help'', desc = [], func = (\<lambda>argc argv tf st. Some (Inr (argc, st)))\<rparr> #
           [\<lparr>name = lit ''help'', desc = [], func = (\<lambda>argc argv tf st. Some (Inr (- 1, st)))\<rparr>])
     (lit ''help  me'') 0 \<lparr>console = [], linebuf = [], mem = (\<lambda>a. 0)\<rparr> =
   Some (Inr (2, \<lparr>console = [], linebuf = lit ''help'' @ [0, 0] @ lit ''me'', mem = (\<lambda>a. 0)\<rparr>))"
proof -
  have t: "tokens (lit ''help  me'') = lit ''help'' # [lit ''me'']"
    by (simp add: tokens_def cstring_def lit_def isws_def)
  have p: "parse_args (lit ''help  me'') 0 [] = Args (lit ''help'' @ [0, 0] @ lit ''me'') [0, 6]"
    by code_simp
  have n: "cstring (lit ''help'') = lit ''help''" "cstring (lit ''helper'') \<noteq> lit ''help''"
    by (simp_all add: cstring_def lit_def)
  from runcmd_first_match [of "lit ''help  me''" "lit ''help''" "[lit ''me'']"
        "\<lparr>name = lit ''help'', desc = [], func = (\<lambda>argc argv tf st. Some (Inr (argc, st)))\<rparr>"
        "[\<lparr>name = lit ''helper'', desc = [], func = (\<lambda>argc argv tf st. Some (Inr (7, st)))\<rparr>]"
        "[\<lparr>name = lit ''help'', desc = [], func = (\<lambda>argc argv tf st. Some (Inr (- 1, st)))\<rparr>]"
        0 "\<lparr>console = [], linebuf = [], mem = (\<lambda>a. 0)\<rparr>", OF t]
  show ?thesis unfolding p using t p n by auto
qed

section \<open>The page-table editor\<close>

lemma myprint_nonnull:
  "pte \<noteq> 0 \<Longrightarrow>
   myprint pte st =
     Inr (cprintf ''PTE_P: %x, PTE_W: %x, PTE_U: %x\<newline>''
            [U32 (mem st pte AND PTE_P), U32 (mem st pte AND PTE_W), U32 (mem st pte AND PTE_U)] st)"
  by (simp add: myprint_def load_def)


text \<open>\<^verbatim>\<open>setm\<close> with four arguments and an entry found, up to the \<^verbatim>\<open>switch\<close>.\<close>

lemma setm_found:
  assumes "xtoi (linebuf st) (argv ! 1) = (addr, b1)"
    and "pgdir_walk e (mem st) addr = (pte, m)" and "pte \<noteq> 0"
  shows "setm e 4 argv tf st =
     (let st1 = \<lparr>console = console st @
                   [(''%x before setperm: '', [U32 addr]),
                    (''PTE_P: %x, PTE_W: %x, PTE_U: %x\<newline>'',
                     [U32 (m pte AND PTE_P), U32 (m pte AND PTE_W), U32 (m pte AND PTE_U)])],
                 linebuf = b1, mem = m\<rparr>
      in case setm_perm (peek b1 (argv ! 3)) of
           None \<Rightarrow> Some (Inr (0, cprintf setm_usage [] st1))
         | Some perm \<Rightarrow>
             (let v = (if peek b1 (argv ! 2) = ch CHR ''0'' then m pte AND NOT perm
                       else m pte OR perm)
              in Some (Inr (0, \<lparr>console = console st1 @
                   [(''%x after setperm: '', [U32 addr]),
                    (''PTE_P: %x, PTE_W: %x, PTE_U: %x\<newline>'',
                     [U32 (v AND PTE_P), U32 (v AND PTE_W), U32 (v AND PTE_U)])],
                 linebuf = b1, mem = m(pte := v)\<rparr>))))"
  using assms
  by (simp add: setm_def myprint_nonnull cprintf_def store_def Let_def split: option.splits)

lemma perm_bits:
  "w AND NOT PTE_P = unset_bit 0 w" "w OR PTE_P = set_bit 0 w"
  "w AND NOT PTE_W = unset_bit 1 w" "w OR PTE_W = set_bit 1 w"
  "w AND NOT PTE_U = unset_bit 2 w" "w OR PTE_U = set_bit 2 w"
  by (simp_all add: PTE_P_def PTE_W_def PTE_U_def unset_bit_eq_and_not set_bit_eq_or)

text \<open>
  C3. \<^verbatim>\<open>setm\<close> with four arguments, an entry \<open>pte\<close> found by \<^verbatim>\<open>pgdir_walk\<close> and a selector
  \<^verbatim>\<open>P\<close>, \<^verbatim>\<open>W\<close> or \<^verbatim>\<open>U\<close>, that is bit 0, 1 or 2 of the entry: it returns 0; the entry
  becomes its old value with bit \<open>k\<close> cleared when the flag is \<^verbatim>\<open>0\<close> and set when it is
  any other character, so every other bit of the entry (the other two permission bits,
  the frame address) is as before, and so is every other cell of memory; the console
  gets the address and the three masked bits of the old value, then of the new one.
\<close>

theorem setm_changes_one_bit:
  assumes "length argv = 4"
    and "xtoi (linebuf st) (argv ! 1) = (addr, b1)"
    and "pgdir_walk e (mem st) addr = (pte, m)" and "pte \<noteq> 0"
    and "(peek b1 (argv ! 3), k) \<in> {(ch CHR ''P'', 0), (ch CHR ''W'', 1), (ch CHR ''U'', 2)}"
    and "new = (if peek b1 (argv ! 2) = ch CHR ''0'' then unset_bit k (m pte) else set_bit k (m pte))"
  shows "setm e 4 argv tf st =
           Some (Inr (0, \<lparr>console = console st @
                   [(''%x before setperm: '', [U32 addr]),
                    (''PTE_P: %x, PTE_W: %x, PTE_U: %x\<newline>'',
                     [U32 (m pte AND PTE_P), U32 (m pte AND PTE_W), U32 (m pte AND PTE_U)]),
                    (''%x after setperm: '', [U32 addr]),
                    (''PTE_P: %x, PTE_W: %x, PTE_U: %x\<newline>'',
                     [U32 (new AND PTE_P), U32 (new AND PTE_W), U32 (new AND PTE_U)])],
                 linebuf = b1, mem = m(pte := new)\<rparr>)) \<and>
         (\<forall>n. bit new n = (if n = k then peek b1 (argv ! 2) \<noteq> ch CHR ''0'' else bit (m pte) n))"
proof -
  from assms(5) consider
      (P) "peek b1 (argv ! 3) = ch CHR ''P''" "k = 0"
    | (W) "peek b1 (argv ! 3) = ch CHR ''W''" "k = 1"
    | (U) "peek b1 (argv ! 3) = ch CHR ''U''" "k = 2"
    by auto
  then have run: "setm e 4 argv tf st =
           Some (Inr (0, \<lparr>console = console st @
                   [(''%x before setperm: '', [U32 addr]),
                    (''PTE_P: %x, PTE_W: %x, PTE_U: %x\<newline>'',
                     [U32 (m pte AND PTE_P), U32 (m pte AND PTE_W), U32 (m pte AND PTE_U)]),
                    (''%x after setperm: '', [U32 addr]),
                    (''PTE_P: %x, PTE_W: %x, PTE_U: %x\<newline>'',
                     [U32 (new AND PTE_P), U32 (new AND PTE_W), U32 (new AND PTE_U)])],
                 linebuf = b1, mem = m(pte := new)\<rparr>))"
  proof cases
    case P
    then show ?thesis
      unfolding setm_found [OF assms(2,3,4)] assms(6)
      by (simp add: setm_perm_def perm_bits Let_def)
  next
    case W
    then show ?thesis
      unfolding setm_found [OF assms(2,3,4)] assms(6)
      by (simp add: setm_perm_def perm_bits Let_def)
  next
    case U
    then show ?thesis
      unfolding setm_found [OF assms(2,3,4)] assms(6)
      by (simp add: setm_perm_def perm_bits Let_def)
  qed
  from assms(5) have "k < 32" by auto
  then have "\<forall>n. bit new n = (if n = k then peek b1 (argv ! 2) \<noteq> ch CHR ''0'' else bit (m pte) n)"
    unfolding assms(6) by (auto simp: bit_set_bit_iff bit_unset_bit_iff)
  with run show ?thesis by (rule conjI)
qed



text \<open>\<^verbatim>\<open>showmappings\<close> tests the pointer and panics.\<close>

lemma showmappings_loop_null_entry:
  assumes "begin_va \<le> end_va" and "pgdir_walk e (mem st) begin_va = (0, m)"
  shows "showmappings_loop e begin_va end_va st = Some (Inl (Panic ''out of memory''))"
  using assms by (subst showmappings_loop.simps) simp

theorem setm_changes_one_bit_witness:
  "setm demo_env 4 [0, 8, 15, 17] 0
     \<lparr>console = [], linebuf = setperm_clear_W, mem = (\<lambda>a. 0)(0xF0400004 := 0x5007)\<rparr> =
   Some (Inr (0, \<lparr>console =
                   [(''%x before setperm: '', [U32 0x1000]),
                    (''PTE_P: %x, PTE_W: %x, PTE_U: %x\<newline>'', [U32 1, U32 2, U32 4]),
                    (''%x after setperm: '', [U32 0x1000]),
                    (''PTE_P: %x, PTE_W: %x, PTE_U: %x\<newline>'', [U32 1, U32 0, U32 4])],
                 linebuf = setperm_clear_W,
                 mem = (\<lambda>a. 0)(0xF0400004 := 0x5005)\<rparr>))"
proof -
  let ?m = "(\<lambda>a. 0)(0xF0400004 := 0x5007) :: u32 \<Rightarrow> u32"
  let ?st = "\<lparr>console = [], linebuf = setperm_clear_W, mem = ?m\<rparr>"
  have x: "xtoi (linebuf ?st) ([0, 8, 15, 17] ! 1) = (0x1000, setperm_clear_W)"
    by code_simp
  have w: "pgdir_walk demo_env (mem ?st) 0x1000 = (0xF0400004, ?m)"
    by (simp add: demo_env_def)
  have s: "(peek setperm_clear_W ([0, 8, 15, 17] ! 3), 1) \<in>
      {(ch CHR ''P'', 0), (ch CHR ''W'', 1), (ch CHR ''U'', 2 :: nat)}"
    by (simp add: setperm_clear_W_def lit_def peek_def)
  have f: "peek setperm_clear_W ([0, 8, 15, 17] ! 2) = ch CHR ''0''"
    by (simp add: setperm_clear_W_def lit_def peek_def)
  have n: "(0x5005 :: u32) = (if peek setperm_clear_W ([0, 8, 15, 17] ! 2) = ch CHR ''0''
      then unset_bit 1 (?m 0xF0400004) else set_bit 1 (?m 0xF0400004))"
    unfolding f by (simp add: unset_bit_eq_and_not)
  from setm_changes_one_bit [of "[0, 8, 15, 17]" ?st "0x1000" setperm_clear_W demo_env
      "0xF0400004" ?m 1 "0x5005" 0, OF _ x w _ s n]
  show ?thesis by (simp add: PTE_P_def PTE_W_def PTE_U_def)
qed



text \<open>
  C1. The lookup fails (\<^verbatim>\<open>pgdir_walk\<close> returns the null pointer) for every address.
  \<^verbatim>\<open>showmp 0x1000 0x2000\<close> ends in \<^verbatim>\<open>panic("out of memory")\<close>, as the specification asks.
  \<^verbatim>\<open>setperm 0x1000 1 W\<close> does not: \<^verbatim>\<open>setm\<close> has no test of the pointer and reads the
  entry through it in \<^verbatim>\<open>myprint\<close>, a null-pointer read and no call of \<^verbatim>\<open>panic\<close>.
\<close>

theorem setm_failed_lookup_no_panic:
  "runcmd (commands oom_env) (lit ''showmp 0x1000 0x2000'') 0
       \<lparr>console = [], linebuf = [], mem = (\<lambda>a. 0)\<rparr> = Some (Inl (Panic ''out of memory'')) \<and>
   runcmd (commands oom_env) (lit ''setperm 0x1000 1 W'') 0
       \<lparr>console = [], linebuf = [], mem = (\<lambda>a. 0)\<rparr> = Some (Inl NullDeref)"
proof
  let ?st = "\<lparr>console = [], linebuf = [], mem = (\<lambda>a. 0)\<rparr>"
  let ?b = "lit ''showmp'' @ 0 # lit ''0x1000'' @ 0 # lit ''0x2000''"
  have p: "parse_args (lit ''showmp 0x1000 0x2000'') 0 [] = Args ?b [0, 7, 14]"
    by code_simp
  have x1: "xtoi ?b 7 = (0x1000, ?b)" and x2: "xtoi ?b 14 = (0x2000, ?b)"
    by code_simp+
  have "runcmd (commands oom_env) (lit ''showmp 0x1000 0x2000'') 0 ?st =
      lookup_invoke (commands oom_env) 3 [0, 7, 14] 0 (?st\<lparr>linebuf := ?b\<rparr>)"
    unfolding runcmd_def p by simp
  also have "\<dots> = showmappings oom_env 3 [0, 7, 14] 0 (?st\<lparr>linebuf := ?b\<rparr>)"
    by (simp add: commands_def strcmp_eq_def cstring_def lit_def)
  also have "\<dots> = Some (Inl (Panic ''out of memory''))"
    by (simp add: showmappings_def x1 x2 cprintf_def oom_env_def
        showmappings_loop_null_entry [where m = "\<lambda>a. 0"])
  finally show "runcmd (commands oom_env) (lit ''showmp 0x1000 0x2000'') 0 ?st =
      Some (Inl (Panic ''out of memory''))" .
next
  show "runcmd (commands oom_env) (lit ''setperm 0x1000 1 W'') 0
       \<lparr>console = [], linebuf = [], mem = (\<lambda>a. 0)\<rparr> = Some (Inl NullDeref)"
    by code_simp
qed

section \<open>The range loop of \<^verbatim>\<open>showmappings\<close>\<close>

lemma PGSIZE_step:
  assumes "unat (b :: u32) + 4096 < 2 ^ 32"
  shows "unat (b + PGSIZE) = unat b + 4096"
  using assms by (simp add: PGSIZE_def unat_word_ariths)

lemma below_last_page: "(n :: nat) < 2 ^ 32 \<Longrightarrow> n \<le> 2 ^ 32 - 4096 + n mod 4096"
proof -
  assume lt: "n < 2 ^ 32"
  define q where "q = n div 4096"
  define r where "r = n mod 4096"
  have n: "n = q * 4096 + r" by (simp add: q_def r_def)
  with lt have "q * 4096 < 1048576 * 4096" by simp
  then have "q < 1048576" by (simp only: mult_less_cancel2)
  with n have "n \<le> 4294963200 + r" by simp
  then show ?thesis by (simp add: r_def)
qed

lemma room_for_step:
  assumes "(n :: nat) < 2 ^ 32 - 4096 + n mod 4096"
  shows "n + 4096 < 2 ^ 32"
proof -
  define q where "q = n div 4096"
  define r where "r = n mod 4096"
  have n: "n = q * 4096 + r" by (simp add: q_def r_def)
  have r: "r < 4096" by (simp add: r_def)
  from assms have "q * 4096 + r < 4294963200 + r" unfolding r_def [symmetric] n by simp
  then have "q * 4096 < 1048575 * 4096" by simp
  then have "q < 1048575" by (simp only: mult_less_cancel2)
  then have "q * 4096 \<le> 1048574 * 4096" by simp
  with n r show ?thesis by simp
qed

lemma PGSIZE_step_mod: "unat (b + PGSIZE) mod 4096 = unat b mod 4096"
  by (simp add: PGSIZE_def unat_word_ariths mod_mod_cancel)

text \<open>
  With the end of the range below the last address that is congruent to \<open>begin\<close> modulo
  the page size, the loop ends: it returns or panics. No step wraps around.
\<close>

lemma showmappings_loop_ends:
  assumes "unat end_va < 2 ^ 32 - 4096 + unat begin_va mod 4096"
  shows "\<exists>r. showmappings_loop e begin_va end_va st = Some r"
  using assms
proof (induction "unat end_va + 1 - unat begin_va" arbitrary: begin_va st rule: less_induct)
  case less
  show ?case
  proof (cases "begin_va \<le> end_va")
    case False
    then show ?thesis by (subst showmappings_loop.simps) simp
  next
    case True
    then have le: "unat begin_va \<le> unat end_va" by (simp add: word_le_nat_alt)
    with less.prems have "unat begin_va < 2 ^ 32 - 4096 + unat begin_va mod 4096" by simp
    then have "unat begin_va + 4096 < 2 ^ 32" by (rule room_for_step)
    then have step: "unat (begin_va + PGSIZE) = unat begin_va + 4096" by (rule PGSIZE_step)
    with le have m: "unat end_va + 1 - unat (begin_va + PGSIZE) < unat end_va + 1 - unat begin_va"
      by simp
    from less.prems have "unat end_va < 2 ^ 32 - 4096 + unat (begin_va + PGSIZE) mod 4096"
      by (simp only: PGSIZE_step_mod)
    from less.hyps [OF m this] have next_ends:
      "\<exists>r. showmappings_loop e (begin_va + PGSIZE) end_va st' = Some r" for st' .
    obtain pte m where w: "pgdir_walk e (mem st) begin_va = (pte, m)"
      by (cases "pgdir_walk e (mem st) begin_va")
    show ?thesis
      using True w next_ends
      by (subst showmappings_loop.simps) (simp split: sum.splits)
  qed
qed

text \<open>
  With the end of the range at or above that address, every address the loop reaches,
  the step taken modulo \<open>2^32\<close>, is again at most \<open>end\<close>. One round of the loop with an
  entry found goes on in a state with the memory the lookup left.
\<close>

lemma top_le:
  assumes "2 ^ 32 - 4096 + unat (b :: u32) mod 4096 \<le> unat (en :: u32)"
  shows "b \<le> en"
proof -
  have "unat b < 2 ^ 32" using unsigned_less [of b] by simp
  then have "unat b \<le> 2 ^ 32 - 4096 + unat b mod 4096" by (rule below_last_page)
  with assms show ?thesis by (simp add: word_le_nat_alt)
qed

lemma showmappings_loop_round:
  assumes "b \<le> en" and "pgdir_walk e (mem s) b = (pte, m)" and "pte \<noteq> 0"
  shows "\<exists>s'. mem s' = m \<and> showmappings_loop e b en s = showmappings_loop e (b + PGSIZE) en s'"
proof (cases "m pte AND PTE_P \<noteq> 0")
  case True
  let ?s = "cprintf ''PTE_P: %x, PTE_W: %x, PTE_U: %x\<newline>''
      [U32 (m pte AND PTE_P), U32 (m pte AND PTE_W), U32 (m pte AND PTE_U)]
      (cprintf ''page %x info as follow: '' [U32 b] (s\<lparr>mem := m\<rparr>))"
  have "mem ?s = m" by (simp add: cprintf_def)
  moreover have "showmappings_loop e b en s = showmappings_loop e (b + PGSIZE) en ?s"
    using assms True
    by (subst showmappings_loop.simps) (simp add: myprint_nonnull cprintf_def)
  ultimately show ?thesis by blast
next
  case False
  let ?s = "cprintf ''page not exist: %x\<newline>'' [U32 b] (s\<lparr>mem := m\<rparr>)"
  have "mem ?s = m" by (simp add: cprintf_def)
  moreover have "showmappings_loop e b en s = showmappings_loop e (b + PGSIZE) en ?s"
    using assms False
    by (subst showmappings_loop.simps) simp
  ultimately show ?thesis by blast
qed

text \<open>When every lookup of the loop returns an entry, the loop never ends.\<close>

lemma showmappings_loop_forever:
  assumes walk: "\<forall>n. lookups_ok e (mem st) begin_va n"
    and top: "2 ^ 32 - 4096 + unat begin_va mod 4096 \<le> unat end_va"
  shows "showmappings_loop e begin_va end_va st = None"
proof -
  have "(\<forall>n. lookups_ok e (mem s) b n) \<longrightarrow>
        2 ^ 32 - 4096 + unat b mod 4096 \<le> unat en \<longrightarrow> False"
    if run: "showmappings_loop e b en s = Some r" for e b en s r
  proof (rule showmappings_loop.raw_induct
      [where P = "\<lambda>e b en s r. (\<forall>n. lookups_ok e (mem s) b n) \<longrightarrow>
                  2 ^ 32 - 4096 + unat b mod 4096 \<le> unat en \<longrightarrow> False", OF _ run],
      goal_cases)
    case (1 loop e b en s r)
    note ih = "1"(1) and body = "1"(2)
    show ?case
    proof (intro impI)
      assume walk: "\<forall>n. lookups_ok e (mem s) b n"
        and top: "2 ^ 32 - 4096 + unat b mod 4096 \<le> unat en"
      from top have le: "b \<le> en" by (rule top_le)
      from top have top': "2 ^ 32 - 4096 + unat (b + PGSIZE) mod 4096 \<le> unat en"
        by (simp only: PGSIZE_step_mod)
      obtain pte m where w: "pgdir_walk e (mem s) b = (pte, m)"
        by (cases "pgdir_walk e (mem s) b")
      have "lookups_ok e (mem s) b (Suc n)" for n using walk by blast
      with w have nz: "pte \<noteq> 0" and walk': "\<forall>n. lookups_ok e m (b + PGSIZE) n"
        by simp_all
      have "\<exists>s'. mem s' = m \<and> loop e (b + PGSIZE) en s' = Some r"
      proof (cases "m pte AND PTE_P \<noteq> 0")
        case True
        let ?s = "cprintf ''PTE_P: %x, PTE_W: %x, PTE_U: %x\<newline>''
            [U32 (m pte AND PTE_P), U32 (m pte AND PTE_W), U32 (m pte AND PTE_U)]
            (cprintf ''page %x info as follow: '' [U32 b] (s\<lparr>mem := m\<rparr>))"
        from body le w nz True have "loop e (b + PGSIZE) en ?s = Some r"
          by (simp add: myprint_nonnull cprintf_def)
        moreover have "mem ?s = m" by (simp add: cprintf_def)
        ultimately have "mem ?s = m \<and> loop e (b + PGSIZE) en ?s = Some r" by (intro conjI)
        then show ?thesis by (rule exI)
      next
        case False
        let ?s = "cprintf ''page not exist: %x\<newline>'' [U32 b] (s\<lparr>mem := m\<rparr>)"
        from body le w nz False have "loop e (b + PGSIZE) en ?s = Some r"
          by simp
        moreover have "mem ?s = m" by (simp add: cprintf_def)
        ultimately have "mem ?s = m \<and> loop e (b + PGSIZE) en ?s = Some r" by (intro conjI)
        then show ?thesis by (rule exI)
      qed
      then obtain s' where ms: "mem s' = m" and ls: "loop e (b + PGSIZE) en s' = Some r"
        by (elim exE conjE)
      from walk' ms have "\<forall>n. lookups_ok e (mem s') (b + PGSIZE) n" by simp
      with ih [OF ls] top' show False by simp
    qed
  qed
  with assms show ?thesis by (cases "showmappings_loop e begin_va end_va st") auto
qed

text \<open>When some lookup of the loop fails, the loop reaches it and panics.\<close>

lemma showmappings_loop_panics:
  assumes "\<not> lookups_ok e (mem st) begin_va n"
    and "2 ^ 32 - 4096 + unat begin_va mod 4096 \<le> unat end_va"
  shows "showmappings_loop e begin_va end_va st = Some (Inl (Panic ''out of memory''))"
  using assms
proof (induction n arbitrary: begin_va st)
  case 0
  then show ?case by simp
next
  case (Suc n)
  from Suc.prems(2) have le: "begin_va \<le> end_va" by (rule top_le)
  from Suc.prems(2) have top': "2 ^ 32 - 4096 + unat (begin_va + PGSIZE) mod 4096 \<le> unat end_va"
    by (simp only: PGSIZE_step_mod)
  obtain pte m where w: "pgdir_walk e (mem st) begin_va = (pte, m)"
    by (cases "pgdir_walk e (mem st) begin_va")
  show ?case
  proof (cases "pte = 0")
    case True
    with le w show ?thesis by (intro showmappings_loop_null_entry [where m = m]) simp_all
  next
    case False
    with Suc.prems(1) w have bad: "\<not> lookups_ok e m (begin_va + PGSIZE) n" by simp
    from showmappings_loop_round [OF le w False]
    obtain s' where s': "mem s' = m"
      and r: "showmappings_loop e begin_va end_va st =
        showmappings_loop e (begin_va + PGSIZE) end_va s'"
      by blast
    from bad s' have "\<not> lookups_ok e (mem s') (begin_va + PGSIZE) n" by simp
    from Suc.IH [OF this top'] r show ?thesis by simp
  qed
qed

lemma demo_env_lookups: "lookups_ok demo_env m b n"
  by (induction n arbitrary: m b) (simp_all add: demo_env_def or_eq_0_iff)

lemma demo_env_walk: "fst (pgdir_walk demo_env m va) \<noteq> 0"
  by (simp add: demo_env_def or_eq_0_iff)

text \<open>The command \<^verbatim>\<open>showmp 0xffffefff 0xfffff000\<close> in the example kernel, from the line on.\<close>

lemma showmp_last_page_run:
  "runcmd (commands demo_env) (lit ''showmp 0xffffefff 0xfffff000'') 0
       \<lparr>console = [], linebuf = [], mem = (\<lambda>a. 0)\<rparr> =
     Some (Inr (0, \<lparr>console = [(''RANGE: from %x to %x\<newline>'', [U32 0xFFFFEFFF, U32 0xFFFFF000]),
                               (''page not exist: %x\<newline>'', [U32 0xFFFFEFFF])],
                    linebuf = lit ''showmp'' @ 0 # lit ''0x????>???'' @ 0 # lit ''0x?????000'',
                    mem = (\<lambda>a. 0)\<rparr>))"
proof -
  let ?st = "\<lparr>console = [], linebuf = [], mem = (\<lambda>a. 0)\<rparr>"
  let ?b = "lit ''showmp'' @ 0 # lit ''0xffffefff'' @ 0 # lit ''0xfffff000''"
  let ?b1 = "lit ''showmp'' @ 0 # lit ''0x????>???'' @ 0 # lit ''0xfffff000''"
  let ?b2 = "lit ''showmp'' @ 0 # lit ''0x????>???'' @ 0 # lit ''0x?????000''"
  have p: "parse_args (lit ''showmp 0xffffefff 0xfffff000'') 0 [] = Args ?b [0, 7, 18]"
    by code_simp
  have x1: "xtoi ?b 7 = (0xFFFFEFFF, ?b1)" and x2: "xtoi ?b1 18 = (0xFFFFF000, ?b2)"
    by code_simp+
  have w: "pgdir_walk demo_env m 0xFFFFEFFF = (0xF0400FF8, m)" for m
    by (simp add: demo_env_def)
  have l: "showmappings_loop demo_env 0xFFFFEFFF 0xFFFFF000
        \<lparr>console = [(''RANGE: from %x to %x\<newline>'', [U32 0xFFFFEFFF, U32 0xFFFFF000])],
         linebuf = ?b2, mem = (\<lambda>a. 0)\<rparr> =
      Some (Inr \<lparr>console = [(''RANGE: from %x to %x\<newline>'', [U32 0xFFFFEFFF, U32 0xFFFFF000]),
                            (''page not exist: %x\<newline>'', [U32 0xFFFFEFFF])],
                 linebuf = ?b2, mem = (\<lambda>a. 0)\<rparr>)"
    apply (subst showmappings_loop.simps)
    apply (simp add: w cprintf_def PGSIZE_def)
    apply (subst showmappings_loop.simps)
    apply simp
    done
  have "runcmd (commands demo_env) (lit ''showmp 0xffffefff 0xfffff000'') 0 ?st =
      lookup_invoke (commands demo_env) 3 [0, 7, 18] 0 (?st\<lparr>linebuf := ?b\<rparr>)"
    unfolding runcmd_def p by simp
  also have "\<dots> = showmappings demo_env 3 [0, 7, 18] 0 (?st\<lparr>linebuf := ?b\<rparr>)"
    by (simp add: commands_def strcmp_eq_def cstring_def lit_def)
  also have "\<dots> = Some (Inr (0, \<lparr>console = [(''RANGE: from %x to %x\<newline>'', [U32 0xFFFFEFFF, U32 0xFFFFF000]),
                               (''page not exist: %x\<newline>'', [U32 0xFFFFEFFF])],
                    linebuf = ?b2, mem = (\<lambda>a. 0)\<rparr>))"
    by (simp add: showmappings_def x1 x2 cprintf_def l)
  finally show ?thesis .
qed

text \<open>
  C9 as stated fails. \<open>begin = 0xffffefff\<close> and \<open>end = 0xfffff000\<close> have
  \<open>end \<ge> 2^32 - PGSIZE\<close> and \<open>begin \<le> end\<close>, and every lookup succeeds; but
  \<open>begin + PGSIZE = 0xffffffff\<close> has not wrapped and is above \<open>end\<close>, so the loop
  ends after one round and the command returns 0.
\<close>

theorem showmappings_loop_last_page_counterexample:
  "2 ^ 32 - unat PGSIZE \<le> unat (0xFFFFF000 :: u32) \<and> (0xFFFFEFFF :: u32) \<le> 0xFFFFF000 \<and>
   (\<forall>m va. fst (pgdir_walk demo_env m va) \<noteq> 0) \<and>
   showmappings_loop demo_env 0xFFFFEFFF 0xFFFFF000 \<lparr>console = [], linebuf = [], mem = (\<lambda>a. 0)\<rparr> =
     Some (Inr \<lparr>console = [(''page not exist: %x\<newline>'', [U32 0xFFFFEFFF])], linebuf = [],
                 mem = (\<lambda>a. 0)\<rparr>) \<and>
   runcmd (commands demo_env) (lit ''showmp 0xffffefff 0xfffff000'') 0
       \<lparr>console = [], linebuf = [], mem = (\<lambda>a. 0)\<rparr> =
     Some (Inr (0, \<lparr>console = [(''RANGE: from %x to %x\<newline>'', [U32 0xFFFFEFFF, U32 0xFFFFF000]),
                               (''page not exist: %x\<newline>'', [U32 0xFFFFEFFF])],
                    linebuf = lit ''showmp'' @ 0 # lit ''0x????>???'' @ 0 # lit ''0x?????000'',
                    mem = (\<lambda>a. 0)\<rparr>))"
proof -
  have w: "pgdir_walk demo_env m 0xFFFFEFFF = (0xF0400FF8, m)" for m
    by (simp add: demo_env_def)
  have "showmappings_loop demo_env 0xFFFFEFFF 0xFFFFF000 \<lparr>console = [], linebuf = [], mem = (\<lambda>a. 0)\<rparr> =
      showmappings_loop demo_env 0xFFFFFFFF 0xFFFFF000
        \<lparr>console = [(''page not exist: %x\<newline>'', [U32 0xFFFFEFFF])], linebuf = [], mem = (\<lambda>a. 0)\<rparr>"
    by (subst showmappings_loop.simps) (simp add: w cprintf_def PGSIZE_def)
  also have "\<dots> = Some (Inr \<lparr>console = [(''page not exist: %x\<newline>'', [U32 0xFFFFEFFF])],
      linebuf = [], mem = (\<lambda>a. 0)\<rparr>)"
    by (subst showmappings_loop.simps) simp
  finally show ?thesis
    unfolding showmp_last_page_run by (simp add: PGSIZE_def demo_env_walk)
qed

text \<open>
  C9, as the code has it. The bound is \<open>2^32 - PGSIZE + begin mod PGSIZE\<close>, the last
  address that is congruent to \<open>begin\<close> modulo the page size; for a page-aligned \<open>begin\<close>
  it is \<open>2^32 - PGSIZE\<close>. With \<open>end\<close> below the bound, and so with every
  \<open>end < 2^32 - PGSIZE\<close>, the loop ends for every \<open>begin\<close>: it returns or it panics. With
  \<open>end\<close> at or above the bound, \<open>begin \<le> end\<close> holds and every address the loop reaches,
  the step taken modulo \<open>2^32\<close>, is again at most \<open>end\<close>: the loop never returns; it
  runs for ever when every lookup it issues returns an entry, and it panics at the
  first lookup that fails.
\<close>

theorem showmappings_loop_termination:
  "(unat end_va < 2 ^ 32 - unat PGSIZE \<or>
    unat end_va < 2 ^ 32 - unat PGSIZE + unat begin_va mod unat PGSIZE \<longrightarrow>
      (\<exists>r. showmappings_loop e begin_va end_va st = Some r)) \<and>
   (2 ^ 32 - unat PGSIZE + unat begin_va mod unat PGSIZE \<le> unat end_va \<longrightarrow>
      begin_va \<le> end_va \<and>
      (\<forall>st'. showmappings_loop e begin_va end_va st \<noteq> Some (Inr st')) \<and>
      ((\<forall>n. lookups_ok e (mem st) begin_va n) \<longrightarrow>
         showmappings_loop e begin_va end_va st = None) \<and>
      ((\<exists>n. \<not> lookups_ok e (mem st) begin_va n) \<longrightarrow>
         showmappings_loop e begin_va end_va st = Some (Inl (Panic ''out of memory''))))"
proof (intro conjI impI)
  assume "unat end_va < 2 ^ 32 - unat PGSIZE \<or>
    unat end_va < 2 ^ 32 - unat PGSIZE + unat begin_va mod unat PGSIZE"
  then have "unat end_va < 2 ^ 32 - 4096 + unat begin_va mod 4096"
    by (auto simp: PGSIZE_def)
  then show "\<exists>r. showmappings_loop e begin_va end_va st = Some r"
    by (rule showmappings_loop_ends)
next
  assume "2 ^ 32 - unat PGSIZE + unat begin_va mod unat PGSIZE \<le> unat end_va"
  then have top: "2 ^ 32 - 4096 + unat begin_va mod 4096 \<le> unat end_va"
    by (simp add: PGSIZE_def)
  then show "begin_va \<le> end_va" by (rule top_le)
  have none: "showmappings_loop e begin_va end_va st = None"
    if "\<forall>n. lookups_ok e (mem st) begin_va n"
    using that top by (rule showmappings_loop_forever)
  have panic: "showmappings_loop e begin_va end_va st = Some (Inl (Panic ''out of memory''))"
    if "\<exists>n. \<not> lookups_ok e (mem st) begin_va n"
  proof -
    from that obtain n where "\<not> lookups_ok e (mem st) begin_va n" ..
    then show ?thesis using top by (rule showmappings_loop_panics)
  qed
  show "\<forall>st'. showmappings_loop e begin_va end_va st \<noteq> Some (Inr st')"
  proof (cases "\<forall>n. lookups_ok e (mem st) begin_va n")
    case True
    then show ?thesis by (simp add: none)
  next
    case False
    then have "\<exists>n. \<not> lookups_ok e (mem st) begin_va n" by simp
    then show ?thesis by (simp add: panic)
  qed
  {
    assume "\<forall>n. lookups_ok e (mem st) begin_va n"
    then show "showmappings_loop e begin_va end_va st = None" by (rule none)
  }
  {
    assume "\<exists>n. \<not> lookups_ok e (mem st) begin_va n"
    then show "showmappings_loop e begin_va end_va st = Some (Inl (Panic ''out of memory''))"
      by (rule panic)
  }
qed

theorem showmappings_loop_termination_witness:
  "unat (0x2000 :: u32) < 2 ^ 32 - unat PGSIZE \<and>
   (\<exists>r. showmappings_loop demo_env 0x1000 0x2000 \<lparr>console = [], linebuf = [], mem = (\<lambda>a. 0)\<rparr> = Some r) \<and>
   unat (0xFFFFF000 :: u32) < 2 ^ 32 - unat PGSIZE + unat (0xFFFFEFFF :: u32) mod unat PGSIZE \<and>
   (\<exists>r. showmappings_loop demo_env 0xFFFFEFFF 0xFFFFF000
          \<lparr>console = [], linebuf = [], mem = (\<lambda>a. 0)\<rparr> = Some r) \<and>
   2 ^ 32 - unat PGSIZE + unat (0x1000 :: u32) mod unat PGSIZE \<le> unat (0xFFFFF000 :: u32) \<and>
   (\<forall>n. lookups_ok demo_env (\<lambda>a. 0) 0x1000 n) \<and>
   showmappings_loop demo_env 0x1000 0xFFFFF000 \<lparr>console = [], linebuf = [], mem = (\<lambda>a. 0)\<rparr> = None \<and>
   \<not> lookups_ok oom_env (\<lambda>a. 0) 0x1000 1 \<and>
   showmappings_loop oom_env 0x1000 0xFFFFF000 \<lparr>console = [], linebuf = [], mem = (\<lambda>a. 0)\<rparr> =
     Some (Inl (Panic ''out of memory''))"
proof -
  let ?st = "\<lparr>console = [], linebuf = [], mem = (\<lambda>a. 0)\<rparr>"
  have bad: "\<not> lookups_ok oom_env (mem ?st) 0x1000 1"
    by (simp add: oom_env_def)
  then have ex: "\<exists>n. \<not> lookups_ok oom_env (mem ?st) 0x1000 n" ..
  have all: "\<forall>n. lookups_ok demo_env (mem ?st) 0x1000 n"
    by (simp add: demo_env_lookups)
  have a: "\<exists>r. showmappings_loop demo_env 0x1000 0x2000 ?st = Some r"
    using showmappings_loop_termination [of "0x2000" "0x1000" demo_env ?st]
    by (simp add: PGSIZE_def)
  have b: "\<exists>r. showmappings_loop demo_env 0xFFFFEFFF 0xFFFFF000 ?st = Some r"
    using showmappings_loop_termination [of "0xFFFFF000" "0xFFFFEFFF" demo_env ?st]
    by (simp add: PGSIZE_def)
  have c: "showmappings_loop demo_env 0x1000 0xFFFFF000 ?st = None"
    using showmappings_loop_termination [of "0xFFFFF000" "0x1000" demo_env ?st] all
    by (simp add: PGSIZE_def)
  have d: "showmappings_loop oom_env 0x1000 0xFFFFF000 ?st = Some (Inl (Panic ''out of memory''))"
    using showmappings_loop_termination [of "0xFFFFF000" "0x1000" oom_env ?st] ex
    by (simp add: PGSIZE_def)
  from a b c d bad all show ?thesis by (simp add: PGSIZE_def)
qed

section \<open>The stack walker\<close>

lemma frame_word_nonnull:
  assumes "unat (p :: u32) + 28 \<le> 2 ^ 32" and "0 < k" and "k \<le> 24"
  shows "p + of_nat k \<noteq> 0"
proof
  assume z: "p + of_nat k = 0"
  have "unat (p + of_nat k) = unat p + k"
    using assms by (simp add: unat_word_ariths unat_of_nat)
  with z assms show False by simp
qed

lemma backtrace_frame_ok:
  assumes "p \<noteq> 0" and "unat p + 28 \<le> 2 ^ 32"
  shows "backtrace_frame e p st =
         Inr (mem st p, st\<lparr>console := console st @ frame_report e (mem st) p\<rparr>)"
proof -
  have nz: "p + 4 \<noteq> 0" "p + 8 \<noteq> 0" "p + 12 \<noteq> 0" "p + 16 \<noteq> 0" "p + 20 \<noteq> 0" "p + 24 \<noteq> 0"
    using frame_word_nonnull [OF assms(2), of 4] frame_word_nonnull [OF assms(2), of 8]
      frame_word_nonnull [OF assms(2), of 12] frame_word_nonnull [OF assms(2), of 16]
      frame_word_nonnull [OF assms(2), of 20] frame_word_nonnull [OF assms(2), of 24]
    by simp_all
  show ?thesis
    using assms(1) nz
    by (simp add: backtrace_frame_def load_def cprintf_def frame_report_def Let_def)
qed

lemma backtrace_loop_chain:
  "frame_chain (mem st) p fs \<Longrightarrow>
   backtrace_loop e p st =
     Some (Inr (st\<lparr>console := console st @ concat (map (frame_report e (mem st)) fs)\<rparr>))"
proof (induction fs arbitrary: p st)
  case Nil
  then show ?case by (subst backtrace_loop.simps) simp
next
  case (Cons f fs)
  then have p: "p = f" "f \<noteq> 0" "unat f + 28 \<le> 2 ^ 32" and rest: "frame_chain (mem st) (mem st f) fs"
    by simp_all
  let ?st = "st\<lparr>console := console st @ frame_report e (mem st) f\<rparr>"
  have "frame_chain (mem ?st) (mem st f) fs" using rest by simp
  from Cons.IH [OF this]
  have "backtrace_loop e (mem st f) ?st =
      Some (Inr (st\<lparr>console := console st @ concat (map (frame_report e (mem st)) (f # fs))\<rparr>))"
    by simp
  then show ?case
    using p by (subst backtrace_loop.simps) (simp add: backtrace_frame_ok)
qed

text \<open>
  C5. For every frame chain \<open>fs\<close> rooted at the frame pointer \<^verbatim>\<open>read_ebp()\<close> returns, of
  any depth \<open>k = length fs\<close>: \<^verbatim>\<open>mon_backtrace\<close> terminates and returns 0; after the heading
  it has printed the report of each of the \<open>k\<close> frames, in the order of the chain from
  the current frame to the root, and nothing else; and the state it returns differs
  from the one it was given in the console only, so no memory was written.
\<close>

theorem mon_backtrace_walks_chain:
  "frame_chain (mem st) (read_ebp e) fs \<Longrightarrow>
   mon_backtrace e argc argv tf st =
     Some (Inr (0, st\<lparr>console := console st @ (''Stack backtrace:\<newline>'', []) #
                                   concat (map (frame_report e (mem st)) fs)\<rparr>))"
proof -
  assume "frame_chain (mem st) (read_ebp e) fs"
  then have "frame_chain (mem (cprintf ''Stack backtrace:\<newline>'' [] st)) (read_ebp e) fs"
    by (simp add: cprintf_def)
  from backtrace_loop_chain [OF this, of e]
  show ?thesis by (simp add: mon_backtrace_def cprintf_def)
qed

theorem mon_backtrace_walks_chain_witness:
  "frame_chain ((\<lambda>a. 0)(0xF010FF78 := 0xF010FFB8, 0xF010FF7C := 0xF0100068, 0xF010FF80 := 5,
                  0xF010FFB8 := 0, 0xF010FFBC := 0xF010003E))
     (read_ebp demo_env) [0xF010FF78, 0xF010FFB8] \<and>
   mon_backtrace demo_env 1 [0] 0
     \<lparr>console = [], linebuf = lit ''backtrace'',
      mem = (\<lambda>a. 0)(0xF010FF78 := 0xF010FFB8, 0xF010FF7C := 0xF0100068, 0xF010FF80 := 5,
                     0xF010FFB8 := 0, 0xF010FFBC := 0xF010003E)\<rparr> =
   Some (Inr (0,
     \<lparr>console =
        [(''Stack backtrace:\<newline>'', []),
         (''  ebp %08x  eip %08x  args %08x %08x %08x %08x %08x\<newline>'',
          [U32 0xF010FF78, U32 0xF0100068, U32 5, U32 0, U32 0, U32 0, U32 0]),
         (''         %s:%d: %.*s+%d\<newline>'',
          [Str (lit ''kern/init.c''), I32 24, I32 9, Str (lit ''i386_init''), U32 0x68]),
         (''  ebp %08x  eip %08x  args %08x %08x %08x %08x %08x\<newline>'',
          [U32 0xF010FFB8, U32 0xF010003E, U32 0, U32 0, U32 0, U32 0, U32 0]),
         (''         %s:%d: %.*s+%d\<newline>'',
          [Str (lit ''kern/init.c''), I32 24, I32 9, Str (lit ''i386_init''), U32 0x3E])],
      linebuf = lit ''backtrace'',
      mem = (\<lambda>a. 0)(0xF010FF78 := 0xF010FFB8, 0xF010FF7C := 0xF0100068, 0xF010FF80 := 5,
                     0xF010FFB8 := 0, 0xF010FFBC := 0xF010003E)\<rparr>))"
proof -
  let ?m = "(\<lambda>a. 0)(0xF010FF78 := 0xF010FFB8, 0xF010FF7C := 0xF0100068, 0xF010FF80 := 5,
                  0xF010FFB8 := 0, 0xF010FFBC := 0xF010003E) :: u32 \<Rightarrow> u32"
  let ?st = "\<lparr>console = [], linebuf = lit ''backtrace'', mem = ?m\<rparr>"
  have c: "frame_chain (mem ?st) (read_ebp demo_env) [0xF010FF78, 0xF010FFB8]"
    by (simp add: demo_env_def)
  from mon_backtrace_walks_chain [OF c, of 1 "[0]" 0] c
  show ?thesis by (simp add: frame_report_def demo_env_def)
qed

section \<open>No command ends the session\<close>

text \<open>The table has the names and descriptions \<^verbatim>\<open>mon_help\<close> prints.\<close>

lemma commands_text: "map (\<lambda>c. (name c, desc c)) (commands e) = command_text"
  by (simp add: commands_def command_text_def)

lemma mon_help_zero: "mon_help argc argv tf st = Some (Inr (r, st')) \<Longrightarrow> r = 0"
  by (simp add: mon_help_def)

lemma mon_kerninfo_zero: "mon_kerninfo e argc argv tf st = Some (Inr (r, st')) \<Longrightarrow> r = 0"
  by (simp add: mon_kerninfo_def Let_def)

lemma mon_backtrace_zero: "mon_backtrace e argc argv tf st = Some (Inr (r, st')) \<Longrightarrow> r = 0"
  by (simp add: mon_backtrace_def split: option.splits sum.splits)

lemma showmappings_zero: "showmappings e argc argv tf st = Some (Inr (r, st')) \<Longrightarrow> r = 0"
  by (simp add: showmappings_def split: if_splits prod.splits option.splits sum.splits)

lemma setm_zero: "setm e argc argv tf st = Some (Inr (r, st')) \<Longrightarrow> r = 0"
  by (simp add: setm_def split: if_splits prod.splits option.splits sum.splits)

lemma showvm_zero: "showvm argc argv tf st = Some (Inr (r, st')) \<Longrightarrow> r = 0"
  by (simp add: showvm_def split: if_splits prod.splits sum.splits)

lemma commands_zero:
  "c \<in> set (commands e) \<Longrightarrow> func c argc argv tf st = Some (Inr (r, st')) \<Longrightarrow> r = 0"
  using mon_help_zero mon_kerninfo_zero mon_backtrace_zero showmappings_zero setm_zero showvm_zero
  by (auto simp: commands_def)

lemma lookup_invoke_zero:
  assumes "\<And>c argc argv tf st r st'.
      c \<in> set cmds \<Longrightarrow> func c argc argv tf st = Some (Inr (r, st')) \<Longrightarrow> r = 0"
    and "lookup_invoke cmds argc argv tf st = Some (Inr (r, st'))"
  shows "r = 0"
  using assms
proof (induction cmds)
  case Nil
  then show ?case by simp
next
  case (Cons c cs)
  show ?case
  proof (cases "strcmp_eq (drop (argv ! 0) (linebuf st)) (name c)")
    case True
    with Cons.prems(2) have "func c argc argv tf st = Some (Inr (r, st'))" by simp
    then show ?thesis using Cons.prems(1) [of c] by simp
  next
    case False
    with Cons.prems(2) have "lookup_invoke cs argc argv tf st = Some (Inr (r, st'))" by simp
    then show ?thesis using Cons.IH Cons.prems(1) by (metis list.set_intros(2))
  qed
qed

lemma runcmd_zero: "runcmd (commands e) buf tf st = Some (Inr (r, st')) \<Longrightarrow> r = 0"
proof -
  assume run: "runcmd (commands e) buf tf st = Some (Inr (r, st'))"
  show "r = 0"
  proof (cases "parse_args buf 0 []")
    case (TooMany b)
    with run show ?thesis by (simp add: runcmd_def)
  next
    case (Args b argv)
    show ?thesis
    proof (cases "length argv = 0")
      case True
      with run Args show ?thesis by (simp add: runcmd_def)
    next
      case False
      with run Args have "lookup_invoke (commands e) (int (length argv)) argv tf
          (st\<lparr>linebuf := b\<rparr>) = Some (Inr (r, st'))"
        by (simp add: runcmd_def)
      then show ?thesis by (rule lookup_invoke_zero [rotated]) (rule commands_zero)
    qed
  qed
qed

lemma monitor_loop_not_exited: "monitor_loop e tf lines st \<noteq> Some (Inr (Exited, st'))"
proof (induction lines arbitrary: st)
  case Nil
  then show ?case by simp
next
  case (Cons l lines)
  show ?case
  proof (cases l)
    case None
    then show ?thesis using Cons.IH by simp
  next
    case (Some buf)
    show ?thesis
    proof (cases "runcmd (commands e) buf tf st")
      case None
      with Some show ?thesis by simp
    next
      case run: (Some res)
      show ?thesis
      proof (cases res)
        case (Inl f)
        with Some run show ?thesis by simp
      next
        case (Inr rs)
        obtain r s where rs: "rs = (r, s)" by (cases rs)
        with run Inr have "r = 0" using runcmd_zero by blast
        with Some run Inr rs show ?thesis using Cons.IH by simp
      qed
    qed
  qed
qed

text \<open>
  C8. Each of the six handlers of the table returns 0 whenever it returns; so
  \<^verbatim>\<open>runcmd\<close> never returns a negative value, and the loop of \<^verbatim>\<open>monitor\<close> never takes
  its \<^verbatim>\<open>break\<close>, whatever lines it reads: a run of the monitor ends in a fault, runs
  forever inside a command, or is back in \<^verbatim>\<open>readline\<close>.
\<close>

theorem monitor_never_exits:
  "(\<forall>c\<in>set (commands e). \<forall>argc argv tf st r st'.
      func c argc argv tf st = Some (Inr (r, st')) \<longrightarrow> r = 0) \<and>
   map name (commands e) =
     [lit ''help'', lit ''kerninfo'', lit ''backtrace'', lit ''showmp'', lit ''setperm'', lit ''showvm''] \<and>
   (\<forall>buf tf st r st'. runcmd (commands e) buf tf st = Some (Inr (r, st')) \<longrightarrow> r = 0) \<and>
   (\<forall>tf lines st st'. monitor e tf lines st \<noteq> Some (Inr (Exited, st')))"
proof (intro conjI ballI allI impI)
  fix c argc argv tf st r st'
  assume "c \<in> set (commands e)" and "func c argc argv tf st = Some (Inr (r, st'))"
  then show "r = 0" by (rule commands_zero)
next
  show "map name (commands e) =
     [lit ''help'', lit ''kerninfo'', lit ''backtrace'', lit ''showmp'', lit ''setperm'', lit ''showvm'']"
    by (simp add: commands_def)
next
  fix buf tf st r st'
  assume "runcmd (commands e) buf tf st = Some (Inr (r, st'))"
  then show "r = 0" by (rule runcmd_zero)
next
  fix tf lines st st'
  show "monitor e tf lines st \<noteq> Some (Inr (Exited, st'))"
    by (simp add: monitor_def Let_def monitor_loop_not_exited)
qed

theorem monitor_never_exits_witness:
  "runcmd (commands demo_env) (lit ''showvm 0x1000 0x0'') 0
     \<lparr>console = [], linebuf = [], mem = (\<lambda>a. 0)\<rparr> =
     Some (Inr (0, \<lparr>console = [], linebuf = lit ''showvm'' @ 0 # lit ''0x1000'' @ 0 # lit ''0x0'',
                     mem = (\<lambda>a. 0)\<rparr>)) \<and>
   (\<forall>st'. monitor demo_env 0 [Some (lit ''showvm 0x1000 0x0''), None, Some (lit ''exit'')]
            \<lparr>console = [], linebuf = [], mem = (\<lambda>a. 0)\<rparr> \<noteq> Some (Inr (Exited, st')))"
proof -
  have "runcmd (commands demo_env) (lit ''showvm 0x1000 0x0'') 0
     \<lparr>console = [], linebuf = [], mem = (\<lambda>a. 0)\<rparr> =
     Some (Inr (0, \<lparr>console = [], linebuf = lit ''showvm'' @ 0 # lit ''0x1000'' @ 0 # lit ''0x0'',
                     mem = (\<lambda>a. 0)\<rparr>))"
    by code_simp
  then show ?thesis using monitor_never_exits [of demo_env] by blast
qed

end
